theory Spec2Isabelle
  imports Complex_Main
begin

section \<open>Values shared by both functions of \<open>windpowerlib/power_curves.py\<close>\<close>

text \<open>
  A Python float is an IEEE 754 binary64 number. A finite float is the real number it
  stands for; a float that may be NaN, where the source tests for it, is a \<open>real option\<close>
  with \<open>None\<close> for NaN. A float operation returns the exact result rounded to a float:
  \<open>smooth_power_curve\<close> below takes the rounding \<open>rnd\<close> as an argument, so that the Python
  \<open>a + b\<close> is \<open>rnd (a + b)\<close>. The rounding is written out where the control flow and the
  shape of the result depend on it, that is for the step and for the wind speeds that the
  extension loop appends. The power values (interpolation, Gaussian weights, their
  products and sum) are computed over the reals.

  A \<open>pandas.Series\<close> with the default index is the list of its values; the two input
  Series of a power curve have one entry per sample, so they are lists of the same length.
\<close>

datatype error =
  ValueError | TypeError | IndexError | AttributeError | ZeroDivisionError | UnboundLocalError
  | MemoryError

text \<open>The returned \<open>pd.DataFrame\<close> with the columns \<open>'wind_speed'\<close> and \<open>'power'\<close>.\<close>

record curve_df =
  wind_speed :: "real list"
  power_col :: "real list"

subsection \<open>\<open>numpy\<close> helpers\<close>

text \<open>
  \<open>np.interp(x, xp, fp, left, right)\<close> for ascending \<open>xp\<close>, which its documentation asks
  for: \<open>right\<close> above \<open>xp[-1]\<close>, \<open>left\<close> below \<open>xp[0]\<close>, otherwise the segment \<open>j\<close> with
  \<open>xp[j] \<le> x < xp[j+1]\<close> is looked up and \<open>slope * (x - xp[j]) + fp[j]\<close> returned (\<open>fp[j]\<close>
  itself when \<open>x = xp[j]\<close> or \<open>j\<close> is the last sample). Callers pass a non-empty \<open>xp\<close>
  with \<open>fp\<close> of the same length.
\<close>

fun interp_segments :: "real \<Rightarrow> (real \<times> real) list \<Rightarrow> real" where
  "interp_segments x [] = 0"
| "interp_segments x [(x0, y0)] = y0"
| "interp_segments x ((x0, y0) # (x1, y1) # rest) =
     (if x < x1 then (if x0 = x then y0 else (y1 - y0) / (x1 - x0) * (x - x0) + y0)
      else interp_segments x ((x1, y1) # rest))"

definition np_interp :: "real \<Rightarrow> real list \<Rightarrow> real list \<Rightarrow> real \<Rightarrow> real \<Rightarrow> real" where
  "np_interp x xp fp left right =
     (if last xp < x then right
      else if x < hd xp then left
      else interp_segments x (zip xp fp))"

subsection \<open>Rounding to binary64\<close>

text \<open>
  Rounding to the nearest float with 53 significant bits, ties to the even significand,
  for a real in the normal range of binary64 (neither overflow nor subnormal numbers):
  a positive \<open>x\<close> with \<open>2\<^sup>k \<le> x < 2\<^sup>k\<^sup>+\<^sup>1\<close> is rounded to a multiple of \<open>2\<^sup>k\<^sup>-\<^sup>5\<^sup>2\<close>. This is
  the rounding at which the statements about concrete inputs below are evaluated.
\<close>

definition round_half_even :: "real \<Rightarrow> int" where
  "round_half_even x =
     (if x - of_int \<lfloor>x\<rfloor> < 1 / 2 then \<lfloor>x\<rfloor>
      else if 1 / 2 < x - of_int \<lfloor>x\<rfloor> then \<lfloor>x\<rfloor> + 1
      else if even \<lfloor>x\<rfloor> then \<lfloor>x\<rfloor> else \<lfloor>x\<rfloor> + 1)"

definition round_magnitude :: "real \<Rightarrow> real" where
  "round_magnitude x =
     of_int (round_half_even (x / 2 powr of_int (\<lfloor>log 2 x\<rfloor> - 52)))
       * 2 powr of_int (\<lfloor>log 2 x\<rfloor> - 52)"

definition float64 :: "real \<Rightarrow> real" where
  "float64 x =
     (if x = 0 then 0 else if 0 < x then round_magnitude x else - round_magnitude (- x))"

subsection \<open>Arithmetic with not-a-number\<close>

fun nan_add :: "real option \<Rightarrow> real option \<Rightarrow> real option" where
  "nan_add (Some a) (Some b) = Some (a + b)"
| "nan_add _ _ = None"

fun nan_mult :: "real option \<Rightarrow> real option \<Rightarrow> real option" where
  "nan_mult (Some a) (Some b) = Some (a * b)"
| "nan_mult _ _ = None"

text \<open>Python's \<open>sum\<close>: starts at \<open>0\<close> and adds from the left.\<close>

definition py_sum :: "real option list \<Rightarrow> real option" where
  "py_sum xs = foldl nan_add (Some 0) xs"

section \<open>\<open>smooth_power_curve\<close>\<close>

text \<open>
  Modelled from the spec: \<open>tools.gaussian_distribution\<close> is not in the source given here.
  The spec gives it as the normal density at \<open>x\<close> with mean \<open>\<mu>\<close> and standard deviation
  \<open>\<sigma>\<close>, and as not-a-number when the standard deviation is zero.
\<close>

definition gaussian_distribution :: "real \<Rightarrow> real \<Rightarrow> real \<Rightarrow> real option" where
  "gaussian_distribution function_variable standard_deviation mean =
     (if standard_deviation = 0 then None
      else Some (1 / (standard_deviation * sqrt (2 * pi)) *
                 exp (- (function_variable - mean)\<^sup>2 / (2 * standard_deviation\<^sup>2))))"

text \<open>
  Lines 66 to 76. The result \<open>Inr None\<close> says that no branch has bound the local variable
  \<open>normalized_standard_deviation\<close>: the \<open>'Norgaard'\<close> branch is \<open>pass\<close> and the chain has no
  \<open>else\<close>. \<open>kwargs\<close> is the dictionary of keyword arguments.
\<close>

definition select_normalized_standard_deviation ::
  "string \<Rightarrow> (string \<rightharpoonup> real) \<Rightarrow> error + real option" where
  "select_normalized_standard_deviation standard_deviation_method kwargs =
     (if standard_deviation_method = ''turbulence_intensity'' then
        (case kwargs ''turbulence_intensity'' of
           Some ti \<Rightarrow> Inr (Some ti)
         | None \<Rightarrow> Inl ValueError)
      else if standard_deviation_method = ''Norgaard'' then Inr None
      else if standard_deviation_method = ''Staffell'' then Inr (Some (2 / 10))
      else Inr None)"

text \<open>
  Lines 82 to 87, the loop that appends wind speeds until 40 m/s; the appended wind speed
  is the float sum \<open>rnd (last + step)\<close>. Nothing bounds the number of iterations, so the
  loop is a partial function: \<open>None\<close> means that it never exits. \<open>values[-1]\<close> and
  \<open>index[-1]\<close> raise \<open>IndexError\<close> on an empty Series.
\<close>

partial_function (option) extend_wind_speeds ::
  "(real \<Rightarrow> real) \<Rightarrow> real \<Rightarrow> real list \<Rightarrow> real list
     \<Rightarrow> (error + real list \<times> real list) option" where
  "extend_wind_speeds rnd step power_curve_wind_speeds power_curve_values =
     (if power_curve_wind_speeds = [] then Some (Inl IndexError)
      else if last power_curve_wind_speeds < 40 then
        (if power_curve_values = [] then Some (Inl IndexError)
         else extend_wind_speeds rnd step
                (power_curve_wind_speeds @ [rnd (last power_curve_wind_speeds + step)])
                (power_curve_values @ [0]))
      else Some (Inr (power_curve_wind_speeds, power_curve_values)))"

text \<open>
  The wind speeds that the loop appends after the wind speed \<open>x\<close>, as a predicate on the
  appended list: each one is the float sum of the one before it and the step, and the loop
  goes on only from a wind speed below 40.
\<close>

fun appended_from :: "(real \<Rightarrow> real) \<Rightarrow> real \<Rightarrow> real \<Rightarrow> real list \<Rightarrow> bool" where
  "appended_from rnd step x [] = True"
| "appended_from rnd step x (y # ys) =
     (x < 40 \<and> y = rnd (x + step) \<and> appended_from rnd step y ys)"

text \<open>
  Lines 94 to 97. Python evaluates the condition and then the chosen branch; both branches
  read \<open>normalized_standard_deviation\<close>, which raises \<open>UnboundLocalError\<close> when unbound.
  The condition \<open>standard_deviation_method is 'Staffell'\<close> compares object identity:
  \<open>same_object\<close> says whether the caller's string is the very object of the literal (true
  for an interned literal \<open>'Staffell'\<close>, false for an equal string built at run time).
\<close>

definition is_Staffell :: "string \<Rightarrow> bool \<Rightarrow> bool" where
  "is_Staffell standard_deviation_method same_object =
     (standard_deviation_method = ''Staffell'' \<and> same_object)"

definition standard_deviation_at ::
  "string \<Rightarrow> bool \<Rightarrow> real option \<Rightarrow> real \<Rightarrow> error + real" where
  "standard_deviation_at standard_deviation_method same_object normalized_standard_deviation
       power_curve_wind_speed =
     (case normalized_standard_deviation of
        None \<Rightarrow> Inl UnboundLocalError
      | Some nsd \<Rightarrow>
          Inr (if is_Staffell standard_deviation_method same_object
               then power_curve_wind_speed * nsd + 6 / 10
               else power_curve_wind_speed * nsd))"

text \<open>
  Lines 99 to 105. The arguments \<open>xp\<close> and \<open>fp\<close> of \<open>np.interp\<close> are the same in every call,
  and \<open>np.interp\<close> raises \<open>ValueError\<close> when they differ in length; over an empty block
  nothing is called and \<open>sum\<close> is \<open>0\<close>.
\<close>

definition smoothed_value ::
  "real list \<Rightarrow> real list \<Rightarrow> real \<Rightarrow> real \<Rightarrow> real \<Rightarrow> real \<Rightarrow> real list
     \<Rightarrow> error + real option" where
  "smoothed_value power_curve_wind_speeds power_curve_values block_width mean_gauss
       power_curve_wind_speed standard_deviation wind_speeds_block =
     (if wind_speeds_block = [] then Inr (Some 0)
      else if length power_curve_values \<noteq> length power_curve_wind_speeds then Inl ValueError
      else Inr (py_sum (map (\<lambda>wind_speed.
             nan_mult
               (Some (block_width *
                  np_interp wind_speed power_curve_wind_speeds power_curve_values 0 0))
               (gaussian_distribution (power_curve_wind_speed - wind_speed)
                  standard_deviation mean_gauss))
             wind_speeds_block)))"

text \<open>
  Lines 89 to 109: the body of the \<open>for\<close> loop, giving the value that is appended.
  \<open>arange_result\<close> is what \<open>np.arange(-15.0, 15.0 + block_width, block_width)\<close> evaluates
  to, an array or an exception. Its arguments do not change, so it is the same in every
  pass, and it is an argument of the model: \<open>np.arange\<close> computes the number of points in
  float arithmetic and raises for a zero step and for a length beyond its size limit.
\<close>

definition smooth_point ::
  "real list \<Rightarrow> real list \<Rightarrow> real \<Rightarrow> (error + real list) \<Rightarrow> string \<Rightarrow> bool \<Rightarrow> real option
     \<Rightarrow> real \<Rightarrow> real \<Rightarrow> error + real" where
  "smooth_point power_curve_wind_speeds power_curve_values block_width arange_result
       standard_deviation_method same_object normalized_standard_deviation mean_gauss
       power_curve_wind_speed =
     (case arange_result of
        Inl e \<Rightarrow> Inl e
      | Inr ar \<Rightarrow>
          (case standard_deviation_at standard_deviation_method same_object
                  normalized_standard_deviation power_curve_wind_speed of
             Inl e \<Rightarrow> Inl e
           | Inr standard_deviation \<Rightarrow>
               (case smoothed_value power_curve_wind_speeds power_curve_values block_width
                       mean_gauss power_curve_wind_speed standard_deviation
                       (map (\<lambda>a. a + power_curve_wind_speed) ar) of
                  Inl e \<Rightarrow> Inl e
                | Inr None \<Rightarrow> Inr 0
                | Inr (Some v) \<Rightarrow> Inr v)))"

text \<open>
  The array of \<open>n\<close> points \<open>-15, -15 + block_width, \<dots>\<close>, which \<open>np.arange\<close> returns where
  these sums are floats: for the block width \<open>0.5\<close> it has the 61 points from \<open>-15\<close> to
  \<open>15\<close>.
\<close>

definition block_of :: "nat \<Rightarrow> real \<Rightarrow> real list" where
  "block_of n block_width = map (\<lambda>i. - 15 + real i * block_width) [0..<n]"

text \<open>The \<open>for\<close> loop of line 88; the first error ends it.\<close>

fun smooth_loop :: "(real \<Rightarrow> error + real) \<Rightarrow> real list \<Rightarrow> real list \<Rightarrow> error + real list" where
  "smooth_loop body [] smoothed_power_curve_values = Inr smoothed_power_curve_values"
| "smooth_loop body (v # vs) smoothed_power_curve_values =
     (case body v of
        Inl e \<Rightarrow> Inl e
      | Inr x \<Rightarrow> smooth_loop body vs (smoothed_power_curve_values @ [x]))"

text \<open>
  The whole function, with the rounding and the outcome of \<open>np.arange\<close> in front of the
  arguments of the source. \<open>iloc[-5]\<close> and \<open>iloc[-6]\<close> raise \<open>IndexError\<close> on a Series with
  fewer than six entries; the step is their float difference. The result is \<open>None\<close> when
  the call never returns.
\<close>

definition smooth_power_curve ::
  "(real \<Rightarrow> real) \<Rightarrow> (error + real list) \<Rightarrow> real list \<Rightarrow> real list \<Rightarrow> real \<Rightarrow> string \<Rightarrow> bool
     \<Rightarrow> real \<Rightarrow> (string \<rightharpoonup> real) \<Rightarrow> (error + curve_df) option" where
  "smooth_power_curve rnd arange_result power_curve_wind_speeds power_curve_values block_width
       standard_deviation_method same_object mean_gauss kwargs =
     (case select_normalized_standard_deviation standard_deviation_method kwargs of
        Inl e \<Rightarrow> Some (Inl e)
      | Inr normalized_standard_deviation \<Rightarrow>
          if length power_curve_wind_speeds < 6 then Some (Inl IndexError)
          else
            (case extend_wind_speeds rnd
                    (rnd (power_curve_wind_speeds ! (length power_curve_wind_speeds - 5) -
                          power_curve_wind_speeds ! (length power_curve_wind_speeds - 6)))
                    power_curve_wind_speeds power_curve_values of
               None \<Rightarrow> None
             | Some (Inl e) \<Rightarrow> Some (Inl e)
             | Some (Inr (ws, pv)) \<Rightarrow>
                 (case smooth_loop
                         (smooth_point ws pv block_width arange_result standard_deviation_method
                            same_object normalized_standard_deviation mean_gauss)
                         ws [] of
                    Inl e \<Rightarrow> Some (Inl e)
                  | Inr smoothed_power_curve_values \<Rightarrow>
                      Some (Inr \<lparr>wind_speed = ws, power_col = smoothed_power_curve_values\<rparr>))))"

section \<open>\<open>wake_losses_to_power_curve\<close>\<close>

text \<open>
  The values that \<open>wind_farm_efficiency\<close> can hold: \<open>None\<close> (the default), a float, an
  integer, a dictionary with the keys \<open>'wind_speed'\<close> and \<open>'efficiency'\<close>, or a
  \<open>pd.DataFrame\<close> with these two columns, given by its rows.
\<close>

datatype py_value =
  PyNone
  | PyFloat real
  | PyInt int
  | PyDict "(string \<times> real list) list"
  | PyDataFrame "(real \<times> real) list"

text \<open>
  \<open>Series.interpolate(method='index')\<close> with the defaults \<open>limit=None\<close> and
  \<open>limit_direction='forward'\<close>, as \<open>pandas.core.missing.interpolate_1d\<close> computes it:
  every NaN is replaced by \<open>np.interp\<close> over the defined entries, sorted by the values of
  the index, which are the abscissae, and the NaNs at the positions before the first
  defined entry are set back to NaN. By its defaults \<open>np.interp\<close> returns \<open>fp[0]\<close> below and
  \<open>fp[-1]\<close> above the defined range.
\<close>

fun valid_points :: "real list \<Rightarrow> real option list \<Rightarrow> (real \<times> real) list" where
  "valid_points (x # xs) (Some y # ys) = (x, y) # valid_points xs ys"
| "valid_points (x # xs) (None # ys) = valid_points xs ys"
| "valid_points _ _ = []"

definition interpolate_index :: "real list \<Rightarrow> real option list \<Rightarrow> real option list" where
  "interpolate_index inds yvalues =
     (let valid = sort_key fst (valid_points inds yvalues);
          first_valid = length (takeWhile (\<lambda>y. y = None) yvalues)
      in if valid = [] then map (\<lambda>_. None) yvalues
         else map (\<lambda>(i, x, y).
                case y of
                  Some v \<Rightarrow> Some v
                | None \<Rightarrow>
                    if i < first_valid then None
                    else Some (np_interp x (map fst valid) (map snd valid)
                                 (snd (hd valid)) (snd (last valid))))
              (zip [0..<length yvalues] (zip inds yvalues)))"

text \<open>
  The reading of the specification, for comparison: entries are interpolated by their
  ordinal position, as if evenly spaced by rank.
\<close>

definition interpolate_by_rank :: "real option list \<Rightarrow> real option list" where
  "interpolate_by_rank yvalues = interpolate_index (map real [0..<length yvalues]) yvalues"

text \<open>\<open>dropna\<close> on the column \<open>'reduced_power'\<close>, keeping the index.\<close>

fun dropna :: "(real \<times> real option) list \<Rightarrow> (real \<times> real) list" where
  "dropna [] = []"
| "dropna ((x, Some v) # rows) = (x, v) # dropna rows"
| "dropna ((x, None) # rows) = dropna rows"

text \<open>
  Lines 179 to 188 for wind speeds without duplicates. \<open>pd.concat(..., axis=1)\<close> is called
  without \<open>sort=\<close>: the joined index holds the wind speeds of the power curve in their
  order, followed by those that only the efficiency frame has, in its order. A frame
  without a row for a wind speed has NaN there.
\<close>

definition reduced_power ::
  "real list \<Rightarrow> real list \<Rightarrow> (real \<times> real) list \<Rightarrow> (real \<times> real) list" where
  "reduced_power power_curve_wind_speeds power_curve_values wind_farm_efficiency =
     (let index = power_curve_wind_speeds @
            filter (\<lambda>x. x \<notin> set power_curve_wind_speeds) (map fst wind_farm_efficiency);
          power = map (map_of (zip power_curve_wind_speeds power_curve_values)) index;
          efficiency = map (map_of wind_farm_efficiency) index
      in dropna (zip index (map2 nan_mult power (interpolate_index index efficiency))))"

definition wake_losses_to_power_curve ::
  "real list \<Rightarrow> real list \<Rightarrow> string \<Rightarrow> py_value \<Rightarrow> error + curve_df" where
  "wake_losses_to_power_curve power_curve_wind_speeds power_curve_values wake_losses_method
       wind_farm_efficiency =
     (if wake_losses_method = ''constant_efficiency'' then
        (case wind_farm_efficiency of
           PyFloat e \<Rightarrow>
             Inr \<lparr>wind_speed = power_curve_wind_speeds,
                  power_col = map (\<lambda>p. p * e) power_curve_values\<rparr>
         | _ \<Rightarrow> Inl TypeError)
      else if wake_losses_method = ''wind_efficiency_curve'' then
        (case wind_farm_efficiency of
           PyDict d \<Rightarrow> Inl AttributeError
         | PyDataFrame rows \<Rightarrow>
             (let reduced = reduced_power power_curve_wind_speeds power_curve_values rows
              in Inr \<lparr>wind_speed = map fst reduced, power_col = map snd reduced\<rparr>)
         | _ \<Rightarrow> Inl TypeError)
      else Inl ValueError)"

text \<open>
  The interpolated efficiency at wind speed \<open>x\<close> in closed form, for an efficiency frame
  with ascending wind speeds that are among those of the power curve: its own value at
  one of its wind speeds, NaN below the first one, and \<open>np.interp\<close> over its rows elsewhere.
  Lemma \<open>interpolate_index_efficiency\<close> below proves that this is what \<open>interpolate_index\<close>
  computes on the joined index.
\<close>

definition efficiency_at :: "(real \<times> real) list \<Rightarrow> real \<Rightarrow> real option" where
  "efficiency_at rows x =
     (case map_of rows x of
        Some v \<Rightarrow> Some v
      | None \<Rightarrow>
          if x < fst (hd rows) then None
          else Some (np_interp x (map fst rows) (map snd rows) (snd (hd rows)) (snd (last rows))))"

section \<open>Properties of the rounding\<close>

text \<open>Rounding to an integer, ties to even, is monotone and leaves integers as they are.\<close>

lemma round_half_even_int: "round_half_even (of_int n) = n"
  by (simp add: round_half_even_def)

lemma round_half_even_bounds: "\<lfloor>x\<rfloor> \<le> round_half_even x" "round_half_even x \<le> \<lfloor>x\<rfloor> + 1"
  by (simp_all add: round_half_even_def)

lemma round_half_even_mono: "x \<le> y \<Longrightarrow> round_half_even x \<le> round_half_even y"
proof -
  assume le: "x \<le> y"
  have fl: "\<lfloor>x\<rfloor> \<le> \<lfloor>y\<rfloor>" using le by (rule floor_mono)
  show ?thesis
  proof (cases "\<lfloor>x\<rfloor> = \<lfloor>y\<rfloor>")
    case True
    with le show ?thesis by (auto simp: round_half_even_def)
  next
    case False
    with fl have "\<lfloor>x\<rfloor> + 1 \<le> \<lfloor>y\<rfloor>" by simp
    with round_half_even_bounds(2)[of x] round_half_even_bounds(1)[of y] show ?thesis by linarith
  qed
qed

text \<open>
  A positive \<open>x\<close> with \<open>2\<^sup>k \<le> x < 2\<^sup>k\<^sup>+\<^sup>1\<close> is scaled to a significand between \<open>2\<^sup>5\<^sup>2\<close> and
  \<open>2\<^sup>5\<^sup>3\<close>, and its rounding lies between \<open>2\<^sup>k\<close> and \<open>2\<^sup>k\<^sup>+\<^sup>1\<close>.
\<close>

lemma powr_split: "(2::real) powr of_int k = 2 ^ n * 2 powr of_int (k - int n)"
proof -
  have "(2::real) powr of_int k = 2 powr (real n + of_int (k - int n))" by simp
  also have "\<dots> = 2 powr real n * 2 powr of_int (k - int n)" by (rule powr_add)
  also have "(2::real) powr real n = 2 ^ n" by (simp add: powr_realpow)
  finally show ?thesis .
qed

lemma log2_bounds:
  assumes "0 < x"
  shows "2 powr of_int \<lfloor>log 2 x\<rfloor> \<le> x" "x < 2 powr of_int (\<lfloor>log 2 x\<rfloor> + 1)"
  using floor_log_eq_powr_iff[of x 2 "\<lfloor>log 2 x\<rfloor>"] assms by simp_all

lemma round_magnitude_at:
  assumes "0 < x" "2 powr of_int k \<le> x" "x < 2 powr of_int (k + 1)"
  shows "round_magnitude x =
           of_int (round_half_even (x / 2 powr of_int (k - 52))) * 2 powr of_int (k - 52)"
proof -
  have "\<lfloor>log 2 x\<rfloor> = k" using floor_log_eq_powr_iff[of x 2 k] assms by simp
  then show ?thesis by (simp add: round_magnitude_def)
qed

lemma scaled_bounds:
  assumes "0 < x"
  shows "2 ^ 52 \<le> x / 2 powr of_int (\<lfloor>log 2 x\<rfloor> - 52)"
    and "x / 2 powr of_int (\<lfloor>log 2 x\<rfloor> - 52) < 2 ^ 53"
proof -
  let ?k = "\<lfloor>log 2 x\<rfloor>"
  have p: "0 < (2::real) powr of_int (?k - 52)" by simp
  have a: "(2::real) powr of_int ?k = 2 ^ 52 * 2 powr of_int (?k - 52)"
    using powr_split[of ?k 52] by simp
  have b: "(2::real) powr of_int (?k + 1) = 2 ^ 53 * 2 powr of_int (?k - 52)"
    using powr_split[of "?k + 1" 53] by simp
  show "2 ^ 52 \<le> x / 2 powr of_int (?k - 52)"
    using log2_bounds(1)[OF assms] a p by (simp add: pos_le_divide_eq)
  show "x / 2 powr of_int (?k - 52) < 2 ^ 53"
    using log2_bounds(2)[OF assms] b p by (simp add: pos_divide_less_eq)
qed

lemma round_magnitude_bounds:
  assumes "0 < x"
  shows "2 powr of_int \<lfloor>log 2 x\<rfloor> \<le> round_magnitude x"
    and "round_magnitude x \<le> 2 powr of_int (\<lfloor>log 2 x\<rfloor> + 1)"
proof -
  let ?k = "\<lfloor>log 2 x\<rfloor>"
  let ?p = "(2::real) powr of_int (?k - 52)"
  let ?r = "round_half_even (x / ?p)"
  have p: "0 < ?p" by simp
  have "round_half_even (of_int (2 ^ 52)) \<le> ?r"
    using scaled_bounds(1)[OF assms] by (intro round_half_even_mono) simp
  then have lo: "(2::int) ^ 52 \<le> ?r" by (simp only: round_half_even_int)
  have "?r \<le> round_half_even (of_int (2 ^ 53))"
    using scaled_bounds(2)[OF assms] by (intro round_half_even_mono) simp
  then have hi: "?r \<le> (2::int) ^ 53" by (simp only: round_half_even_int)
  have a: "(2::real) powr of_int ?k = 2 ^ 52 * ?p"
    using powr_split[of ?k 52] by simp
  have b: "(2::real) powr of_int (?k + 1) = 2 ^ 53 * ?p"
    using powr_split[of "?k + 1" 53] by simp
  have "(of_int (2 ^ 52) :: real) \<le> of_int ?r" using lo by (simp only: of_int_le_iff)
  then have "(2::real) ^ 52 \<le> of_int ?r" by simp
  then have "2 ^ 52 * ?p \<le> of_int ?r * ?p" using p by (simp add: mult_right_mono)
  then show "2 powr of_int ?k \<le> round_magnitude x" by (simp only: a round_magnitude_def)
  have "(of_int ?r :: real) \<le> of_int (2 ^ 53)" using hi by (simp only: of_int_le_iff)
  then have "of_int ?r \<le> (2::real) ^ 53" by simp
  then have "of_int ?r * ?p \<le> 2 ^ 53 * ?p" using p by (simp add: mult_right_mono)
  then show "round_magnitude x \<le> 2 powr of_int (?k + 1)" by (simp only: b round_magnitude_def)
qed

text \<open>The rounding is monotone.\<close>

lemma round_magnitude_pos: "0 < x \<Longrightarrow> 0 < round_magnitude x"
proof -
  assume "0 < x"
  from round_magnitude_bounds(1)[OF this] have "2 powr of_int \<lfloor>log 2 x\<rfloor> \<le> round_magnitude x" .
  moreover have "0 < (2::real) powr of_int \<lfloor>log 2 x\<rfloor>" by simp
  ultimately show ?thesis by linarith
qed

lemma round_magnitude_mono:
  assumes "0 < x" "x \<le> y"
  shows "round_magnitude x \<le> round_magnitude y"
proof -
  have y: "0 < y" using assms by simp
  have kle: "\<lfloor>log 2 x\<rfloor> \<le> \<lfloor>log 2 y\<rfloor>"
    using assms y by (intro floor_mono) simp
  show ?thesis
  proof (cases "\<lfloor>log 2 x\<rfloor> = \<lfloor>log 2 y\<rfloor>")
    case True
    let ?p = "(2::real) powr of_int (\<lfloor>log 2 y\<rfloor> - 52)"
    have "x / ?p \<le> y / ?p" using assms(2) by (simp add: divide_right_mono)
    then have "round_half_even (x / ?p) \<le> round_half_even (y / ?p)" by (rule round_half_even_mono)
    then have "of_int (round_half_even (x / ?p)) * ?p \<le> of_int (round_half_even (y / ?p)) * ?p"
      by (simp add: mult_right_mono)
    then show ?thesis by (simp add: round_magnitude_def True)
  next
    case False
    with kle have "\<lfloor>log 2 x\<rfloor> + 1 \<le> \<lfloor>log 2 y\<rfloor>" by simp
    then have "(2::real) powr of_int (\<lfloor>log 2 x\<rfloor> + 1) \<le> 2 powr of_int \<lfloor>log 2 y\<rfloor>"
      by (intro powr_mono) simp_all
    with round_magnitude_bounds(2)[OF assms(1)] round_magnitude_bounds(1)[OF y]
    show ?thesis by linarith
  qed
qed

lemma float64_mono: "x \<le> y \<Longrightarrow> float64 x \<le> float64 y"
proof -
  assume le: "x \<le> y"
  consider "0 < x" | "x = 0" | "x < 0" "y < 0" | "x < 0" "0 \<le> y" by linarith
  then show ?thesis
  proof cases
    case 1
    with le show ?thesis by (simp add: float64_def round_magnitude_mono)
  next
    case 2
    with le round_magnitude_pos[of y] show ?thesis
      by (cases "y = 0") (simp_all add: float64_def less_imp_le)
  next
    case 3
    with le have "round_magnitude (- y) \<le> round_magnitude (- x)"
      by (intro round_magnitude_mono) simp_all
    with 3 show ?thesis by (simp add: float64_def)
  next
    case 4
    have "float64 x < 0" using 4(1) round_magnitude_pos[of "- x"] by (simp add: float64_def)
    moreover have "0 \<le> float64 y" using 4(2) round_magnitude_pos[of y]
      by (cases "y = 0") (simp_all add: float64_def less_imp_le)
    ultimately show ?thesis by simp
  qed
qed

text \<open>
  A number with a significand of at most 53 bits is a float: the rounding leaves it as it
  is. That holds for the integers below \<open>2\<^sup>5\<^sup>3\<close> and for their quotients by powers of two.
\<close>

lemma powr_neg_int: "k \<le> 0 \<Longrightarrow> (2::real) powr of_int k = 1 / 2 ^ nat (- k)"
  using powr_int[of 2 k] by (cases "k = 0") simp_all

lemma round_magnitude_dyadic:
  assumes "0 < m" "m < 2 ^ 53"
  shows "round_magnitude (of_int m * 2 powr of_int e) = of_int m * 2 powr of_int e"
proof -
  let ?km = "\<lfloor>log 2 (of_int m)\<rfloor>"
  let ?pe = "(2::real) powr of_int e"
  let ?x = "of_int m * ?pe"
  have m: "0 < (of_int m :: real)" using assms(1) by simp
  have pe: "0 < ?pe" by simp
  have "2 powr of_int ?km \<le> (of_int m :: real)" using log2_bounds(1)[OF m] .
  also have "(of_int m :: real) < 2 ^ 53"
  proof -
    have "(of_int m :: real) < of_int (2 ^ 53)" using assms(2) by (simp only: of_int_less_iff)
    then show ?thesis by simp
  qed
  also have "(2::real) ^ 53 = 2 powr of_int 53" by (simp add: powr_int)
  finally have "?km < 53" by (simp del: of_int_numeral)
  then have km: "?km \<le> 52" by simp
  define d where "d = nat (52 - ?km)"
  have p: "(2::real) powr of_int (?km - 52) = 1 / 2 ^ d"
    unfolding d_def using powr_neg_int[of "?km - 52"] km by simp
  have "log 2 ?x = log 2 (of_int m) + of_int e"
    using m by (simp add: log_mult)
  then have k: "\<lfloor>log 2 ?x\<rfloor> = ?km + e" by simp
  have "(of_int (?km + e - 52) :: real) = of_int (?km - 52) + of_int e" by simp
  then have "(2::real) powr of_int (?km + e - 52) = 2 powr of_int (?km - 52) * ?pe"
    by (simp only: powr_add)
  then have q: "(2::real) powr of_int (\<lfloor>log 2 ?x\<rfloor> - 52) = 1 / 2 ^ d * ?pe"
    by (simp only: k p)
  have scaled: "?x / (1 / 2 ^ d * ?pe) = of_int (m * 2 ^ d)"
    using pe by (simp add: field_simps)
  have "round_magnitude ?x = of_int (round_half_even (?x / (1 / 2 ^ d * ?pe))) * (1 / 2 ^ d * ?pe)"
    by (simp only: round_magnitude_def q)
  also have "\<dots> = of_int (m * 2 ^ d) * (1 / 2 ^ d * ?pe)"
    by (simp only: scaled round_half_even_int)
  also have "\<dots> = ?x" by simp
  finally show ?thesis .
qed

lemma float64_dyadic:
  assumes "\<bar>m\<bar> < 2 ^ 53"
  shows "float64 (of_int m * 2 powr of_int e) = of_int m * 2 powr of_int e"
proof -
  consider "m = 0" | "0 < m" | "m < 0" by linarith
  then show ?thesis
  proof cases
    case 1
    then show ?thesis by (simp add: float64_def)
  next
    case 2
    with assms have "m < 2 ^ 53" by simp
    from round_magnitude_dyadic[OF 2 this, of e] 2 show ?thesis
      by (simp add: float64_def zero_less_mult_iff)
  next
    case 3
    with assms have "0 < - m" "- m < 2 ^ 53" by simp_all
    from round_magnitude_dyadic[OF this, of e] 3 show ?thesis
      by (simp add: float64_def zero_less_mult_iff mult_less_0_iff)
  qed
qed

lemma float64_int: "\<bar>m\<bar> < 2 ^ 53 \<Longrightarrow> float64 (of_int m) = of_int m"
  using float64_dyadic[of m 0] by simp

lemma float64_numeral: "(numeral n :: int) < 2 ^ 53 \<Longrightarrow> float64 (numeral n) = numeral n"
  using float64_int[of "numeral n"] by simp

lemma float64_0: "float64 0 = 0"
  by (simp add: float64_def)

lemma float64_1: "float64 1 = 1"
  using float64_int[of 1] by simp

text \<open>
  A float with the significand \<open>m\<close> absorbs a summand below half a unit in its last place.
  At exactly half a unit, an odd significand is rounded up to the even one.
\<close>

lemma float64_absorb:
  assumes "2 ^ 52 \<le> m" "m < 2 ^ 53" "0 \<le> s" "s < 2 powr of_int e / 2"
  shows "float64 (of_int m * 2 powr of_int e + s) = of_int m * 2 powr of_int e"
proof -
  let ?p = "(2::real) powr of_int e"
  let ?y = "of_int m * ?p + s"
  have p: "0 < ?p" by simp
  have mlo: "(2::real) ^ 52 \<le> of_int m"
  proof -
    have "(of_int (2 ^ 52) :: real) \<le> of_int m" using assms(1) by (simp only: of_int_le_iff)
    then show ?thesis by simp
  qed
  have "m + 1 \<le> 2 ^ 53" using assms(2) by simp
  then have "(of_int (m + 1) :: real) \<le> of_int (2 ^ 53)" by (simp only: of_int_le_iff)
  then have mhi: "of_int m + 1 \<le> (2::real) ^ 53" by simp
  have "0 < of_int m * ?p" using mlo p by (intro mult_pos_pos) simp_all
  then have ypos: "0 < ?y" using assms(3) by simp
  have lo: "2 powr of_int (52 + e) \<le> ?y"
  proof -
    have "(2::real) powr of_int (52 + e) = 2 ^ 52 * ?p" using powr_split[of "52 + e" 52] by simp
    also have "\<dots> \<le> of_int m * ?p" using mlo p by (simp add: mult_right_mono)
    finally show ?thesis using assms(3) by simp
  qed
  have hi: "?y < 2 powr of_int (52 + e + 1)"
  proof -
    have "s < ?p" using assms(4) p by linarith
    then have "?y < of_int m * ?p + ?p" by simp
    also have "\<dots> = (of_int m + 1) * ?p" by (simp add: algebra_simps)
    also have "\<dots> \<le> 2 ^ 53 * ?p" using mhi p by (simp add: mult_right_mono)
    also have "\<dots> = 2 powr of_int (52 + e + 1)" using powr_split[of "52 + e + 1" 53] by simp
    finally show ?thesis .
  qed
  have frac: "?y / ?p = of_int m + s / ?p" using p by (simp add: field_simps)
  have s1: "0 \<le> s / ?p" using assms(3) p by (intro divide_nonneg_pos)
  have "s / ?p < (?p / 2) / ?p" using assms(4) p by (intro divide_strict_right_mono)
  then have s2: "s / ?p < 1 / 2" using p by simp
  have fl: "\<lfloor>of_int m + s / ?p\<rfloor> = m"
    by (rule floor_unique) (use s1 s2 in linarith)+
  have "of_int m + s / ?p - of_int \<lfloor>of_int m + s / ?p\<rfloor> < 1 / 2"
    using s2 by (simp add: fl)
  then have "round_half_even (of_int m + s / ?p) = m"
    unfolding round_half_even_def by (simp only: fl if_True)
  with round_magnitude_at[OF ypos lo hi] frac have "round_magnitude ?y = of_int m * ?p" by simp
  with ypos show ?thesis by (simp add: float64_def)
qed

lemma float64_dyadic_fraction:
  assumes "\<bar>m\<bar> < 2 ^ 53"
  shows "float64 (of_int m / 2 ^ n) = of_int m / 2 ^ n"
  using float64_dyadic[OF assms, of "- int n"] powr_neg_int[of "- int n"] by simp

lemma float64_absorb_fraction:
  assumes "2 ^ 52 \<le> m" "m < 2 ^ 53" "0 \<le> s" "s < 1 / 2 ^ Suc n"
  shows "float64 (of_int m / 2 ^ n + s) = of_int m / 2 ^ n"
proof -
  have p: "(2::real) powr of_int (- int n) = 1 / 2 ^ n" using powr_neg_int[of "- int n"] by simp
  have "s < 1 / 2 ^ n / 2" using assms(4) by simp
  then have "s < 2 powr of_int (- int n) / 2" by (simp only: p)
  from float64_absorb[OF assms(1-3) this] show ?thesis by (simp only: p) simp
qed

lemma float64_tie_odd:
  assumes "2 ^ 52 \<le> m" "m < 2 ^ 53" "odd m"
  shows "float64 (of_int m * 2 powr of_int e + 2 powr of_int e / 2)
           = (of_int m + 1) * 2 powr of_int e"
proof -
  let ?p = "(2::real) powr of_int e"
  let ?y = "of_int m * ?p + ?p / 2"
  have p: "0 < ?p" by simp
  have mlo: "(2::real) ^ 52 \<le> of_int m"
  proof -
    have "(of_int (2 ^ 52) :: real) \<le> of_int m" using assms(1) by (simp only: of_int_le_iff)
    then show ?thesis by simp
  qed
  have "m + 1 \<le> 2 ^ 53" using assms(2) by simp
  then have "(of_int (m + 1) :: real) \<le> of_int (2 ^ 53)" by (simp only: of_int_le_iff)
  then have mhi: "of_int m + 1 \<le> (2::real) ^ 53" by simp
  have "0 < of_int m * ?p" using mlo p by (intro mult_pos_pos) simp_all
  then have ypos: "0 < ?y" using p by linarith
  have lo: "2 powr of_int (52 + e) \<le> ?y"
  proof -
    have "(2::real) powr of_int (52 + e) = 2 ^ 52 * ?p" using powr_split[of "52 + e" 52] by simp
    also have "\<dots> \<le> of_int m * ?p" using mlo p by (simp add: mult_right_mono)
    finally show ?thesis using p by linarith
  qed
  have hi: "?y < 2 powr of_int (52 + e + 1)"
  proof -
    have "?y < of_int m * ?p + ?p" using p by simp
    also have "\<dots> = (of_int m + 1) * ?p" by (simp add: algebra_simps)
    also have "\<dots> \<le> 2 ^ 53 * ?p" using mhi p by (simp add: mult_right_mono)
    also have "\<dots> = 2 powr of_int (52 + e + 1)" using powr_split[of "52 + e + 1" 53] by simp
    finally show ?thesis .
  qed
  have frac: "?y / ?p = of_int m + 1 / 2" using p by (simp add: field_simps)
  have fl: "\<lfloor>of_int m + (1 / 2 :: real)\<rfloor> = m"
    by (rule floor_unique) simp_all
  have "round_half_even (of_int m + 1 / 2) = m + 1"
    unfolding round_half_even_def using assms(3) by (simp add: fl)
  with round_magnitude_at[OF ypos lo hi] frac have "round_magnitude ?y = (of_int m + 1) * ?p"
    by simp
  with ypos show ?thesis by (simp add: float64_def)
qed

lemma float64_tie_odd_fraction:
  assumes "2 ^ 52 \<le> m" "m < 2 ^ 53" "odd m"
  shows "float64 (of_int m / 2 ^ n + 1 / 2 ^ Suc n) = (of_int m + 1) / 2 ^ n"
proof -
  have p: "(2::real) powr of_int (- int n) = 1 / 2 ^ n" using powr_neg_int[of "- int n"] by simp
  from float64_tie_odd[OF assms, of "- int n"] show ?thesis
    by (simp only: p) (simp add: mult.commute)
qed

text \<open>The rounding is idempotent: its values are the floats.\<close>

lemma round_half_even_scaled:
  assumes "0 < x"
  shows "2 ^ 52 \<le> round_half_even (x / 2 powr of_int (\<lfloor>log 2 x\<rfloor> - 52))"
    and "round_half_even (x / 2 powr of_int (\<lfloor>log 2 x\<rfloor> - 52)) \<le> 2 ^ 53"
proof -
  let ?r = "round_half_even (x / 2 powr of_int (\<lfloor>log 2 x\<rfloor> - 52))"
  have "round_half_even (of_int (2 ^ 52)) \<le> ?r"
    using scaled_bounds(1)[OF assms] by (intro round_half_even_mono) simp
  then show "2 ^ 52 \<le> ?r" by (simp only: round_half_even_int)
  have "?r \<le> round_half_even (of_int (2 ^ 53))"
    using scaled_bounds(2)[OF assms] by (intro round_half_even_mono) simp
  then show "?r \<le> 2 ^ 53" by (simp only: round_half_even_int)
qed

lemma round_magnitude_idem:
  assumes "0 < x"
  shows "round_magnitude (round_magnitude x) = round_magnitude x"
proof -
  let ?k = "\<lfloor>log 2 x\<rfloor>"
  let ?r = "round_half_even (x / 2 powr of_int (?k - 52))"
  have rm: "round_magnitude x = of_int ?r * 2 powr of_int (?k - 52)"
    by (simp only: round_magnitude_def)
  have "(0::int) < 2 ^ 52" by simp
  also note round_half_even_scaled(1)[OF assms]
  finally have pos: "0 < ?r" .
  show ?thesis
  proof (cases "?r < 2 ^ 53")
    case True
    from round_magnitude_dyadic[OF pos True, of "?k - 52"] show ?thesis by (simp only: rm)
  next
    case False
    with round_half_even_scaled(2)[OF assms] have top: "?r = 2 ^ 53" by linarith
    have "(2::real) powr of_int (?k - 51) = 2 ^ 1 * 2 powr of_int (?k - 51 - int 1)"
      by (rule powr_split)
    then have "(2::real) powr of_int (?k - 51) = 2 * 2 powr of_int (?k - 52)" by simp
    then have "of_int (2 ^ 53) * (2::real) powr of_int (?k - 52)
        = of_int (2 ^ 52) * 2 powr of_int (?k - 51)"
      by simp
    then have shifted: "round_magnitude x = of_int (2 ^ 52) * 2 powr of_int (?k - 51)"
      by (simp only: rm top)
    have "round_magnitude (of_int (2 ^ 52) * 2 powr of_int (?k - 51))
        = of_int (2 ^ 52) * 2 powr of_int (?k - 51)"
      by (rule round_magnitude_dyadic) simp_all
    then show ?thesis by (simp only: shifted)
  qed
qed

lemma float64_idem: "float64 (float64 x) = float64 x"
proof -
  consider "x = 0" | "0 < x" | "x < 0" by linarith
  then show ?thesis
  proof cases
    case 1
    then show ?thesis by (simp add: float64_def)
  next
    case 2
    with round_magnitude_pos[of x] round_magnitude_idem[of x] show ?thesis
      by (simp add: float64_def)
  next
    case 3
    then have "0 < - x" by simp
    with round_magnitude_pos[of "- x"] round_magnitude_idem[of "- x"] 3 show ?thesis
      by (simp add: float64_def)
  qed
qed

lemma mono_float64: "mono float64"
  by (rule monoI) (rule float64_mono)

text \<open>
  The sums of the examples below: \<open>2\<^sup>-\<^sup>6\<^sup>0\<close> is a float, and it is absorbed by \<open>4\<close>; the float
  \<open>40 - 2\<^sup>-\<^sup>4\<^sup>7\<close> is the largest one below 40, and its sum with \<open>30\<close> is halfway between
  the floats \<open>70 - 2\<^sup>-\<^sup>4\<^sup>6\<close> and \<open>70\<close>.
\<close>

lemma float64_absorbed_step: "float64 (4 + 1 / 2 ^ 60) = 4"
  using float64_absorb_fraction[of "2 ^ 52" "1 / 2 ^ 60" 50] by simp

lemma float64_small_step: "float64 (1 / 2 ^ 60) = 1 / 2 ^ 60"
  using float64_dyadic_fraction[of 1 60] by simp

lemma float64_below_40: "float64 (40 - 1 / 2 ^ 47) = 40 - 1 / 2 ^ 47"
  using float64_dyadic_fraction[of "40 * 2 ^ 47 - 1" 47] by (simp add: field_simps)

lemma float64_rounded_up: "float64 (40 - 1 / 2 ^ 47 + 30) = 70"
  using float64_tie_odd_fraction[of "70 * 2 ^ 46 - 1" 46] by (simp add: field_simps)

section \<open>Properties of \<open>smooth_power_curve\<close>\<close>

subsection \<open>The extension loop\<close>

text \<open>
  When the loop exits on a non-empty curve, it has appended wind speeds, each the float sum
  of the one before it and the step, and as many zeros, and the last wind speed is at
  least 40.
\<close>

lemma extend_wind_speeds_result:
  assumes "extend_wind_speeds rnd step ws pv = Some y"
  shows "ws \<noteq> [] \<longrightarrow> pv \<noteq> [] \<longrightarrow>
           (\<exists>ext. y = Inr (ws @ ext, pv @ replicate (length ext) 0)
                \<and> appended_from rnd step (last ws) ext \<and> 40 \<le> last (ws @ ext))"
proof (rule extend_wind_speeds.raw_induct
    [where P = "\<lambda>rnd step ws pv y. ws \<noteq> [] \<longrightarrow> pv \<noteq> [] \<longrightarrow>
           (\<exists>ext. y = Inr (ws @ ext, pv @ replicate (length ext) 0)
                \<and> appended_from rnd step (last ws) ext \<and> 40 \<le> last (ws @ ext))",
      OF _ assms])
  fix extend :: "(real \<Rightarrow> real) \<Rightarrow> real \<Rightarrow> real list \<Rightarrow> real list
      \<Rightarrow> (error + real list \<times> real list) option"
  fix rnd step ws pv y
  assume IH: "\<And>rnd step ws pv y. extend rnd step ws pv = Some y \<Longrightarrow>
     ws \<noteq> [] \<longrightarrow> pv \<noteq> [] \<longrightarrow>
       (\<exists>ext. y = Inr (ws @ ext, pv @ replicate (length ext) 0)
            \<and> appended_from rnd step (last ws) ext \<and> 40 \<le> last (ws @ ext))"
  assume body: "(if ws = [] then Some (Inl IndexError)
      else if last ws < 40 then
        (if pv = [] then Some (Inl IndexError)
         else extend rnd step (ws @ [rnd (last ws + step)]) (pv @ [0]))
      else Some (Inr (ws, pv))) = Some y"
  show "ws \<noteq> [] \<longrightarrow> pv \<noteq> [] \<longrightarrow>
       (\<exists>ext. y = Inr (ws @ ext, pv @ replicate (length ext) 0)
            \<and> appended_from rnd step (last ws) ext \<and> 40 \<le> last (ws @ ext))"
  proof (intro impI)
    assume ne: "ws \<noteq> []" "pv \<noteq> []"
    show "\<exists>ext. y = Inr (ws @ ext, pv @ replicate (length ext) 0)
            \<and> appended_from rnd step (last ws) ext \<and> 40 \<le> last (ws @ ext)"
    proof (cases "last ws < 40")
      case True
      with body ne have "extend rnd step (ws @ [rnd (last ws + step)]) (pv @ [0]) = Some y"
        by simp
      from IH[OF this] obtain ext where ext:
        "y = Inr ((ws @ [rnd (last ws + step)]) @ ext, (pv @ [0]) @ replicate (length ext) 0)"
        "appended_from rnd step (rnd (last ws + step)) ext"
        "40 \<le> last ((ws @ [rnd (last ws + step)]) @ ext)"
        by auto
      have "y = Inr (ws @ rnd (last ws + step) # ext,
                     pv @ replicate (length (rnd (last ws + step) # ext)) 0)"
        using ext(1) by (simp add: replicate_append_same)
      moreover have "appended_from rnd step (last ws) (rnd (last ws + step) # ext)"
        using True ext(2) by simp
      moreover have "40 \<le> last (ws @ rnd (last ws + step) # ext)" using ext(3) by simp
      ultimately show ?thesis by blast
    next
      case False
      with body ne have "y = Inr (ws, pv)" by simp
      with False ne show ?thesis by (intro exI[of _ "[]"]) simp
    qed
  qed
qed

text \<open>
  When the float sum of the last wind speed and the step is the last wind speed again, the
  loop appends this wind speed in every pass and never exits.
\<close>

lemma extend_wind_speeds_absorbed_exits:
  assumes "extend_wind_speeds rnd step ws pv = Some y"
  shows "\<not> (ws \<noteq> [] \<and> pv \<noteq> [] \<and> last ws < 40 \<and> rnd (last ws + step) = last ws)"
proof (rule extend_wind_speeds.raw_induct
    [where P = "\<lambda>rnd step ws pv y.
        \<not> (ws \<noteq> [] \<and> pv \<noteq> [] \<and> last ws < 40 \<and> rnd (last ws + step) = last ws)",
      OF _ assms])
  fix extend :: "(real \<Rightarrow> real) \<Rightarrow> real \<Rightarrow> real list \<Rightarrow> real list
      \<Rightarrow> (error + real list \<times> real list) option"
  fix rnd step ws pv y
  assume IH: "\<And>rnd step ws pv y. extend rnd step ws pv = Some y \<Longrightarrow>
     \<not> (ws \<noteq> [] \<and> pv \<noteq> [] \<and> last ws < 40 \<and> rnd (last ws + step) = last ws)"
  assume body: "(if ws = [] then Some (Inl IndexError)
      else if last ws < 40 then
        (if pv = [] then Some (Inl IndexError)
         else extend rnd step (ws @ [rnd (last ws + step)]) (pv @ [0]))
      else Some (Inr (ws, pv))) = Some y"
  show "\<not> (ws \<noteq> [] \<and> pv \<noteq> [] \<and> last ws < 40 \<and> rnd (last ws + step) = last ws)"
  proof
    assume a: "ws \<noteq> [] \<and> pv \<noteq> [] \<and> last ws < 40 \<and> rnd (last ws + step) = last ws"
    with body have "extend rnd step (ws @ [rnd (last ws + step)]) (pv @ [0]) = Some y" by simp
    from IH[OF this] a show False by simp
  qed
qed

lemma extend_wind_speeds_absorbed:
  assumes "ws \<noteq> []" "pv \<noteq> []" "last ws < 40" "rnd (last ws + step) = last ws"
  shows "extend_wind_speeds rnd step ws pv = None"
  using extend_wind_speeds_absorbed_exits [of rnd step ws pv] assms
  by (cases "extend_wind_speeds rnd step ws pv") auto

text \<open>
  With a step that is not positive and a last wind speed below 40 the loop never exits:
  under a monotone rounding the appended wind speeds stay at or below the last one.
\<close>

lemma extend_wind_speeds_falling_exits:
  assumes "extend_wind_speeds rnd step ws pv = Some y"
  shows "\<not> (mono rnd \<and> rnd c = c \<and> c < 40 \<and> step \<le> 0 \<and> ws \<noteq> [] \<and> pv \<noteq> [] \<and> last ws \<le> c)"
proof (rule extend_wind_speeds.raw_induct
    [where P = "\<lambda>rnd step ws pv y.
        \<not> (mono rnd \<and> rnd c = c \<and> c < 40 \<and> step \<le> 0 \<and> ws \<noteq> [] \<and> pv \<noteq> [] \<and> last ws \<le> c)",
      OF _ assms])
  fix extend :: "(real \<Rightarrow> real) \<Rightarrow> real \<Rightarrow> real list \<Rightarrow> real list
      \<Rightarrow> (error + real list \<times> real list) option"
  fix rnd :: "real \<Rightarrow> real"
  fix step ws pv y
  assume IH: "\<And>rnd step ws pv y. extend rnd step ws pv = Some y \<Longrightarrow>
     \<not> (mono rnd \<and> rnd c = c \<and> c < 40 \<and> step \<le> 0 \<and> ws \<noteq> [] \<and> pv \<noteq> [] \<and> last ws \<le> c)"
  assume body: "(if ws = [] then Some (Inl IndexError)
      else if last ws < 40 then
        (if pv = [] then Some (Inl IndexError)
         else extend rnd step (ws @ [rnd (last ws + step)]) (pv @ [0]))
      else Some (Inr (ws, pv))) = Some y"
  show "\<not> (mono rnd \<and> rnd c = c \<and> c < 40 \<and> step \<le> 0 \<and> ws \<noteq> [] \<and> pv \<noteq> [] \<and> last ws \<le> c)"
  proof
    assume a: "mono rnd \<and> rnd c = c \<and> c < 40 \<and> step \<le> 0 \<and> ws \<noteq> [] \<and> pv \<noteq> [] \<and> last ws \<le> c"
    then have m: "mono rnd" and c: "rnd c = c" and le: "last ws + step \<le> c" by auto
    from a have "last ws < 40" by simp
    with body a have run: "extend rnd step (ws @ [rnd (last ws + step)]) (pv @ [0]) = Some y"
      by simp
    have "rnd (last ws + step) \<le> rnd c" using m le by (rule monoD)
    then have "rnd (last ws + step) \<le> c" by (simp only: c)
    with IH[OF run] a show False by simp
  qed
qed

lemma extend_wind_speeds_falling:
  assumes "mono rnd" "rnd (last ws) = last ws" "step \<le> 0" "ws \<noteq> []" "pv \<noteq> []" "last ws < 40"
  shows "extend_wind_speeds rnd step ws pv = None"
  using extend_wind_speeds_falling_exits [of rnd step ws pv _ "last ws"] assms
  by (cases "extend_wind_speeds rnd step ws pv") auto

text \<open>
  When every float sum from a wind speed below 40 exceeds that wind speed by at least
  \<open>\<delta> > 0\<close>, the loop exits, after at most \<open>\<lceil>(40 - last) / \<delta>\<rceil>\<close> passes.
\<close>

lemma extend_wind_speeds_progress:
  assumes "0 < \<delta>" "\<And>x. a \<le> x \<Longrightarrow> x < 40 \<Longrightarrow> x + \<delta> \<le> rnd (x + step)"
  shows "ws \<noteq> [] \<Longrightarrow> pv \<noteq> [] \<Longrightarrow> a \<le> last ws \<Longrightarrow> nat \<lceil>(40 - last ws) / \<delta>\<rceil> \<le> n \<Longrightarrow>
         \<exists>r. extend_wind_speeds rnd step ws pv = Some (Inr r)"
proof (induction n arbitrary: ws pv)
  case 0
  then have "(40 - last ws) / \<delta> \<le> 0" by simp
  with assms(1) have "\<not> last ws < 40" by (simp add: divide_le_0_iff)
  with 0 show ?case by (subst extend_wind_speeds.simps) simp
next
  case (Suc n)
  show ?case
  proof (cases "last ws < 40")
    case False
    with Suc.prems show ?thesis by (subst extend_wind_speeds.simps) simp
  next
    case True
    define r where "r = rnd (last ws + step)"
    have r: "last ws + \<delta> \<le> r" unfolding r_def using Suc.prems(3) True by (rule assms(2))
    have "(40 - r) / \<delta> \<le> (40 - last ws - \<delta>) / \<delta>"
      using r assms(1) by (intro divide_right_mono) simp_all
    also have "\<dots> = (40 - last ws) / \<delta> - 1"
      using assms(1) by (simp add: diff_divide_distrib)
    finally have "(40 - r) / \<delta> \<le> (40 - last ws) / \<delta> - 1" .
    then have "\<lceil>(40 - r) / \<delta>\<rceil> \<le> \<lceil>(40 - last ws) / \<delta>\<rceil> - 1" by linarith
    moreover have "\<lceil>(40 - last ws) / \<delta>\<rceil> \<le> int (Suc n)"
      using Suc.prems(4) by (simp only: nat_le_iff)
    ultimately have "\<lceil>(40 - r) / \<delta>\<rceil> \<le> int n" by linarith
    then have "nat \<lceil>(40 - r) / \<delta>\<rceil> \<le> n" by (simp only: nat_le_iff)
    then have "nat \<lceil>(40 - last (ws @ [r])) / \<delta>\<rceil> \<le> n" by (simp only: last_snoc)
    moreover have "a \<le> last (ws @ [r])" using r Suc.prems(3) assms(1) by simp
    ultimately have "\<exists>res. extend_wind_speeds rnd step (ws @ [r]) (pv @ [0]) = Some (Inr res)"
      by (intro Suc.IH) simp_all
    moreover have "extend_wind_speeds rnd step ws pv
        = extend_wind_speeds rnd step (ws @ [r]) (pv @ [0])"
      using True Suc.prems(1,2) unfolding r_def by (subst extend_wind_speeds.simps) simp
    ultimately show ?thesis by simp
  qed
qed

text \<open>
  The appended wind speeds. Under a monotone rounding they do not fall; and as the last
  one is at least 40, none of them repeats the one before it, so they ascend strictly.
\<close>

lemma appended_from_nth:
  "appended_from rnd step x ext \<Longrightarrow> i < length ext \<Longrightarrow>
     (x # ext) ! i < 40 \<and> ext ! i = rnd ((x # ext) ! i + step)"
proof (induction ext arbitrary: x i)
  case Nil
  then show ?case by simp
next
  case (Cons y ys)
  show ?case
  proof (cases i)
    case 0
    with Cons.prems show ?thesis by simp
  next
    case (Suc j)
    with Cons.prems have "appended_from rnd step y ys" "j < length ys" by auto
    from Cons.IH[OF this] Suc show ?thesis by simp
  qed
qed



text \<open>The extended curve, sample by sample.\<close>

lemma sorted_wrt_less_last:
  assumes "sorted_wrt (<) (ws :: real list)" "x \<in> set ws"
  shows "x \<le> last ws"
proof -
  from assms(2) obtain i where i: "i < length ws" "ws ! i = x" by (auto simp: in_set_conv_nth)
  have ne: "ws \<noteq> []" using assms(2) by auto
  show ?thesis
  proof (cases "i = length ws - 1")
    case True
    with i ne show ?thesis by (simp add: last_conv_nth)
  next
    case False
    with i have "i < length ws - 1" by simp
    then have "ws ! i < ws ! (length ws - 1)"
      using ne by (intro sorted_wrt_nth_less[OF assms(1)]) simp_all
    with i ne show ?thesis by (simp add: last_conv_nth)
  qed
qed

lemma extension_shape:
  fixes pv :: "real list"
  assumes "ws \<noteq> []" "length pv = length ws" "last ws < 40"
    and "appended_from rnd step (last ws) ext" "40 \<le> last (ws @ ext)"
  shows "length ws < length (ws @ ext)"
    and "\<forall>i. length ws \<le> i \<and> i < length (ws @ ext) \<longrightarrow>
           (ws @ ext) ! i = rnd ((ws @ ext) ! (i - 1) + step) \<and> (ws @ ext) ! (i - 1) < 40
           \<and> (pv @ replicate (length ext) 0) ! i = 0"
    and "mono rnd \<Longrightarrow> last (ws @ ext) \<le> rnd (40 + step)"
proof -
  have extne: "ext \<noteq> []" using assms(3,5) by auto
  then show "length ws < length (ws @ ext)" by simp
  have prev: "(ws @ ext) ! (i - 1) = (last ws # ext) ! (i - length ws)"
    if "length ws \<le> i" for i
  proof (cases "i = length ws")
    case True
    with assms(1) show ?thesis by (simp add: nth_append last_conv_nth)
  next
    case False
    with that have "length ws < i" by simp
    then obtain j where j: "i = length ws + Suc j" using less_iff_Suc_add by auto
    then show ?thesis by (simp add: nth_append)
  qed
  have step: "(ws @ ext) ! (i - 1) < 40 \<and> (ws @ ext) ! i = rnd ((ws @ ext) ! (i - 1) + step)"
    if "length ws \<le> i" "i < length (ws @ ext)" for i
  proof -
    have "i - length ws < length ext" using that by auto
    from appended_from_nth[OF assms(4) this] prev[OF that(1)] that(1)
    show ?thesis by (simp add: nth_append)
  qed
  show "\<forall>i. length ws \<le> i \<and> i < length (ws @ ext) \<longrightarrow>
           (ws @ ext) ! i = rnd ((ws @ ext) ! (i - 1) + step) \<and> (ws @ ext) ! (i - 1) < 40
           \<and> (pv @ replicate (length ext) 0) ! i = 0"
  proof (intro allI impI)
    fix i assume i: "length ws \<le> i \<and> i < length (ws @ ext)"
    then have "i - length ws < length ext" by auto
    then have "(pv @ replicate (length ext) 0) ! i = (0::real)"
      using i assms(2) by (simp add: nth_append)
    with step[of i] i
    show "(ws @ ext) ! i = rnd ((ws @ ext) ! (i - 1) + step) \<and> (ws @ ext) ! (i - 1) < 40
           \<and> (pv @ replicate (length ext) 0) ! i = 0"
      by simp
  qed
  show "last (ws @ ext) \<le> rnd (40 + step)" if m: "mono rnd"
  proof -
    define i where "i = length (ws @ ext) - 1"
    obtain y ys where "ext = y # ys" using extne by (cases ext) auto
    then have i: "length ws \<le> i" "i < length (ws @ ext)" by (simp_all add: i_def)
    have "last (ws @ ext) = (ws @ ext) ! i" using extne by (simp add: i_def last_conv_nth)
    also have "\<dots> = rnd ((ws @ ext) ! (i - 1) + step)" using step[OF i] by simp
    also have "\<dots> \<le> rnd (40 + step)"
    proof (rule monoD[OF m])
      show "(ws @ ext) ! (i - 1) + step \<le> 40 + step" using step[OF i] by simp
    qed
    finally show ?thesis .
  qed
qed

text \<open>
  The curve \<open>[0, 2\<^sup>-\<^sup>6\<^sup>0, 1, 2, 3, 4]\<close> has the step \<open>2\<^sup>-\<^sup>6\<^sup>0 - 0\<close>, and the float sum
  \<open>4 + 2\<^sup>-\<^sup>6\<^sup>0\<close> is \<open>4\<close>: on this curve the loop never exits.
\<close>

lemma absorbed_step_never_exits:
  "extend_wind_speeds float64 (float64 (1 / 2 ^ 60 - 0)) [0, 1 / 2 ^ 60, 1, 2, 3, 4]
     [0, 10, 20, 30, 40, 50] = None"
proof -
  have step: "float64 (1 / 2 ^ 60 - 0) = 1 / 2 ^ 60"
    using float64_small_step by (simp only: diff_zero)
  have "last [0, 1 / 2 ^ 60, 1, 2, 3, 4 :: real] = 4" by simp
  then have "float64 (last [0, 1 / 2 ^ 60, 1, 2, 3, 4] + 1 / 2 ^ 60)
      = last [0, 1 / 2 ^ 60, 1, 2, 3, 4 :: real]"
    using float64_absorbed_step by (simp only:)
  then show ?thesis
    unfolding step by (intro extend_wind_speeds_absorbed) simp_all
qed

text \<open>
  Claim C5, as the code has it. The appended wind speeds are float sums. For a curve whose
  last wind speed is below 40: if the sum of the last wind speed and the step rounds to
  the last wind speed again, the loop never exits; if every such sum from a wind speed
  below 40 exceeds that wind speed by at least a fixed amount \<open>\<delta> > 0\<close>, the loop exits.
  Whenever it exits it has left the given samples in place and appended at least one;
  every appended wind speed is the float sum of the one before it, which is below 40,
  and the step; every appended power value is \<open>0\<close>; and the last wind speed of the
  extended curve is at least 40 and at most the float sum of 40 and the step.
\<close>

theorem C5_tail_extension:
  assumes "ws \<noteq> []" "length pv = length ws" "last ws < 40" "mono rnd"
  shows "(rnd (last ws + step) = last ws \<longrightarrow> extend_wind_speeds rnd step ws pv = None)
       \<and> ((\<exists>\<delta>>0. \<forall>x. last ws \<le> x \<and> x < 40 \<longrightarrow> x + \<delta> \<le> rnd (x + step)) \<longrightarrow>
            (\<exists>ws' pv'. extend_wind_speeds rnd step ws pv = Some (Inr (ws', pv'))))
       \<and> (\<forall>ws' pv'. extend_wind_speeds rnd step ws pv = Some (Inr (ws', pv')) \<longrightarrow>
            length ws < length ws' \<and> length pv' = length ws'
            \<and> take (length ws) ws' = ws \<and> take (length pv) pv' = pv
            \<and> (\<forall>i. length ws \<le> i \<and> i < length ws' \<longrightarrow>
                   ws' ! i = rnd (ws' ! (i - 1) + step) \<and> ws' ! (i - 1) < 40 \<and> pv' ! i = 0)
            \<and> 40 \<le> last ws' \<and> last ws' \<le> rnd (40 + step))"
proof (intro conjI impI allI)
  have pvne: "pv \<noteq> []" using assms(1,2) by auto
  {
    assume "rnd (last ws + step) = last ws"
    with assms(1) pvne assms(3) show "extend_wind_speeds rnd step ws pv = None"
      by (rule extend_wind_speeds_absorbed)
  }
  {
    assume "\<exists>\<delta>>0. \<forall>x. last ws \<le> x \<and> x < 40 \<longrightarrow> x + \<delta> \<le> rnd (x + step)"
    then obtain \<delta> where d: "0 < \<delta>" "\<And>x. last ws \<le> x \<Longrightarrow> x < 40 \<Longrightarrow> x + \<delta> \<le> rnd (x + step)"
      by blast
    have "\<exists>r. extend_wind_speeds rnd step ws pv = Some (Inr r)"
      using d assms(1) pvne
      by (rule extend_wind_speeds_progress[where a = "last ws" and n = "nat \<lceil>(40 - last ws) / \<delta>\<rceil>"])
        simp_all
    then show "\<exists>ws' pv'. extend_wind_speeds rnd step ws pv = Some (Inr (ws', pv'))" by auto
  }
  fix ws' pv'
  assume run: "extend_wind_speeds rnd step ws pv = Some (Inr (ws', pv'))"
  from extend_wind_speeds_result[OF run] assms(1) pvne obtain ext where
    ext: "ws' = ws @ ext" "pv' = pv @ replicate (length ext) 0"
      "appended_from rnd step (last ws) ext" "40 \<le> last (ws @ ext)"
    by auto
  note shape = extension_shape[OF assms(1-3) ext(3,4)]
  show "length ws < length ws'" using shape(1) ext(1) by simp
  show "length pv' = length ws'" using ext(1,2) assms(2) by simp
  show "take (length ws) ws' = ws" using ext(1) by simp
  show "take (length pv) pv' = pv" using ext(2) by simp
  show "40 \<le> last ws'" using ext(1,4) by simp
  show "last ws' \<le> rnd (40 + step)" using shape(3)[OF assms(4)] ext(1) by simp
  fix i assume i: "length ws \<le> i \<and> i < length ws'"
  with shape(2) ext(1,2) show "ws' ! i = rnd (ws' ! (i - 1) + step)" "ws' ! (i - 1) < 40"
    "pv' ! i = 0"
    by simp_all
qed

text \<open>
  A curve with step 2 that ends at 39: the float sum \<open>39 + 2\<close> is 41, every float sum from
  a wind speed between 39 and 40 is at least 41, and one sample is appended, at 41.
\<close>

theorem C5_tail_extension_witness:
  "last [29, 31, 33, 35, 37, 39 :: real] < 40 \<and> float64 (39 + 2) \<noteq> 39
   \<and> extend_wind_speeds float64 2 [29, 31, 33, 35, 37, 39] [6, 5, 4, 3, 2, 1]
       = Some (Inr ([29, 31, 33, 35, 37, 39, 41], [6, 5, 4, 3, 2, 1, 0]))
   \<and> (40 :: real) \<le> 41 \<and> 41 \<le> float64 (40 + 2)"
proof -
  have run: "extend_wind_speeds float64 2 [29, 31, 33, 35, 37, 39] [6, 5, 4, 3, 2, 1]
      = Some (Inr ([29, 31, 33, 35, 37, 39, 41], [6, 5, 4, 3, 2, 1, 0]))"
    by (simp add: extend_wind_speeds.simps float64_numeral)
  have progress: "\<exists>\<delta>>0. \<forall>x. last [29, 31, 33, 35, 37, 39 :: real] \<le> x \<and> x < 40
      \<longrightarrow> x + \<delta> \<le> float64 (x + 2)"
  proof (intro exI[of _ 1] conjI allI impI)
    fix x :: real assume x: "last [29, 31, 33, 35, 37, 39] \<le> x \<and> x < 40"
    then have "float64 41 \<le> float64 (x + 2)" by (intro float64_mono) simp
    with x show "x + 1 \<le> float64 (x + 2)" by (simp add: float64_numeral)
  qed simp
  have h: "[29, 31, 33, 35, 37, 39 :: real] \<noteq> []"
    "length [6, 5, 4, 3, 2, 1 :: real] = length [29, 31, 33, 35, 37, 39 :: real]"
    "last [29, 31, 33, 35, 37, 39 :: real] < 40"
    by simp_all
  note c = C5_tail_extension [OF h mono_float64, of 2]
  from c[THEN conjunct2, THEN conjunct1] progress
  have "\<exists>ws' pv'. extend_wind_speeds float64 2 [29, 31, 33, 35, 37, 39] [6, 5, 4, 3, 2, 1]
      = Some (Inr (ws', pv'))"
    by blast
  with run show ?thesis by (simp add: float64_numeral)
qed

text \<open>
  Claim C5 as stated fails. The curve \<open>[0, 2\<^sup>-\<^sup>6\<^sup>0, 1, 2, 3, 4]\<close> is strictly ascending and has
  the positive step \<open>2\<^sup>-\<^sup>6\<^sup>0\<close>, but the float sum \<open>4 + 2\<^sup>-\<^sup>6\<^sup>0\<close> is \<open>4\<close>: every pass appends the
  wind speed \<open>4\<close>, and the loop never exits.
\<close>

theorem C5_absorbed_step_counterexample:
  "sorted_wrt (<) [0, 1 / 2 ^ 60, 1, 2, 3, 4 :: real] \<and> 0 < float64 (1 / 2 ^ 60 - 0)
   \<and> last [0, 1 / 2 ^ 60, 1, 2, 3, 4 :: real] < 40
   \<and> extend_wind_speeds float64 (float64 (1 / 2 ^ 60 - 0)) [0, 1 / 2 ^ 60, 1, 2, 3, 4]
        [0, 10, 20, 30, 40, 50] = None"
  using absorbed_step_never_exits float64_small_step by simp

text \<open>
  The bound \<open>last < 40 + step\<close> of the claim fails too: on the curve
  \<open>[0, 30, 31, 32, 33, 40 - 2\<^sup>-\<^sup>4\<^sup>7]\<close> with the step \<open>30 - 0\<close> the float sum
  \<open>(40 - 2\<^sup>-\<^sup>4\<^sup>7) + 30\<close> is rounded up to \<open>70\<close>.
\<close>

lemma extension_bound_attained:
  "extend_wind_speeds float64 (float64 (30 - 0)) [0, 30, 31, 32, 33, 40 - 1 / 2 ^ 47]
     [0, 10, 20, 30, 40, 50]
     = Some (Inr ([0, 30, 31, 32, 33, 40 - 1 / 2 ^ 47, 70], [0, 10, 20, 30, 40, 50, 0]))"
proof -
  have step: "float64 (30 - 0) = 30" by (simp add: float64_numeral)
  have "extend_wind_speeds float64 30 [0, 30, 31, 32, 33, 40 - 1 / 2 ^ 47] [0, 10, 20, 30, 40, 50]
      = extend_wind_speeds float64 30
          ([0, 30, 31, 32, 33, 40 - 1 / 2 ^ 47] @ [float64 (40 - 1 / 2 ^ 47 + 30)])
          ([0, 10, 20, 30, 40, 50] @ [0])"
    by (subst extend_wind_speeds.simps) simp
  also have "\<dots> = Some (Inr ([0, 30, 31, 32, 33, 40 - 1 / 2 ^ 47, 70],
                             [0, 10, 20, 30, 40, 50, 0]))"
    unfolding float64_rounded_up by (subst extend_wind_speeds.simps) simp
  finally show ?thesis unfolding step .
qed

text \<open>
  Claim C4, as the code has it. The loop of lines 82 to 87 is not guarded: for a curve with
  at least six samples whose tail step is not positive and whose last wind speed is below
  40, the call never returns once the method selection has passed. It raises no error
  and gives no result. This holds for every rounding that is monotone and leaves \<open>0\<close> and
  the last wind speed, which are floats, as they are.
\<close>

theorem C4_unguarded_extension_diverges:
  assumes "6 \<le> length ws" "length pv = length ws"
    and "ws ! (length ws - 5) - ws ! (length ws - 6) \<le> 0"
    and "last ws < 40"
    and "\<not> (m = ''turbulence_intensity'' \<and> kwargs ''turbulence_intensity'' = None)"
    and "mono rnd" "rnd 0 = 0" "rnd (last ws) = last ws"
  shows "smooth_power_curve rnd arange_result ws pv block_width m same_object mean_gauss kwargs
           = None"
proof -
  have ne: "ws \<noteq> []" "pv \<noteq> []" using assms(1,2) by auto
  have "rnd (ws ! (length ws - 5) - ws ! (length ws - 6)) \<le> rnd 0"
    using assms(6,3) by (rule monoD)
  then have step: "rnd (ws ! (length ws - 5) - ws ! (length ws - 6)) \<le> 0"
    by (simp only: assms(7))
  have "extend_wind_speeds rnd (rnd (ws ! (length ws - 5) - ws ! (length ws - 6))) ws pv = None"
    using assms(6,8) step ne assms(4) by (rule extend_wind_speeds_falling)
  moreover have "\<exists>nsd. select_normalized_standard_deviation m kwargs = Inr nsd"
    using assms(5) by (cases "kwargs ''turbulence_intensity''")
      (simp_all add: select_normalized_standard_deviation_def)
  then obtain nsd where "select_normalized_standard_deviation m kwargs = Inr nsd" ..
  ultimately show ?thesis using assms(1) by (simp add: smooth_power_curve_def)
qed

text \<open>A curve whose wind speeds fall again, with a tail step of \<open>5 - 5 = 0\<close>, in floats.\<close>

theorem C4_unguarded_extension_diverges_witness:
  "6 \<le> length [3, 4, 5, 5, 4, 3, 2, 1 :: real]
   \<and> [3, 4, 5, 5, 4, 3, 2, 1 :: real] ! (8 - 5) - [3, 4, 5, 5, 4, 3, 2, 1] ! (8 - 6) \<le> 0
   \<and> last [3, 4, 5, 5, 4, 3, 2, 1 :: real] < 40
   \<and> float64 (last [3, 4, 5, 5, 4, 3, 2, 1]) = last [3, 4, 5, 5, 4, 3, 2, 1]
   \<and> smooth_power_curve float64 (Inr (block_of 61 (1 / 2))) [3, 4, 5, 5, 4, 3, 2, 1]
        [0, 1, 2, 3, 4, 5, 6, 7] (1 / 2) ''turbulence_intensity'' False 0
        [''turbulence_intensity'' \<mapsto> 1 / 10] = None"
  using C4_unguarded_extension_diverges [of "[3, 4, 5, 5, 4, 3, 2, 1]" "[0, 1, 2, 3, 4, 5, 6, 7]"
      "''turbulence_intensity''" "[''turbulence_intensity'' \<mapsto> 1 / 10]" float64
      "Inr (block_of 61 (1 / 2))" "1 / 2" False 0]
    mono_float64
  by (simp add: float64_0 float64_1)

text \<open>
  Claim C4 as stated fails: a curve with a repeated wind speed has the tail step
  \<open>4 - 4 = 0\<close> and ends at 8, and the call does not end with an error; it does not end.
\<close>

theorem C4_no_ConfigError_counterexample:
  "smooth_power_curve float64 (Inr (block_of 61 (1 / 2))) [3, 4, 4, 5, 6, 7, 8]
     [0, 10, 10, 20, 30, 40, 50] (1 / 2) ''Staffell'' True 0 Map.empty = None"
proof -
  have "extend_wind_speeds float64 0 [3, 4, 4, 5, 6, 7, 8] [0, 10, 10, 20, 30, 40, 50] = None"
    by (rule extend_wind_speeds_absorbed) (simp_all add: float64_numeral)
  then show ?thesis
    by (simp add: smooth_power_curve_def select_normalized_standard_deviation_def float64_0)
qed

subsection \<open>The method selection\<close>

text \<open>
  Claim C3. With the method \<open>'Norgaard'\<close> the selection binds nothing and raises nothing;
  the curve is extended to 40 m/s, and the first pass of the loop over the wind speeds
  raises \<open>UnboundLocalError\<close> where the standard deviation is computed.
\<close>

theorem C3_Norgaard_unbound:
  "smooth_power_curve float64 (Inr (block_of 61 (1 / 2))) [0, 1, 2, 3, 4, 5]
     [0, 10, 20, 30, 40, 50] (1 / 2) ''Norgaard'' False 0
     [''turbulence_intensity'' \<mapsto> 1 / 10] = Some (Inl UnboundLocalError)"
  by (simp add: smooth_power_curve_def select_normalized_standard_deviation_def
      extend_wind_speeds.simps smooth_point_def standard_deviation_at_def
      float64_numeral float64_1)

subsection \<open>The loop over the wind speeds\<close>

text \<open>A sum with a NaN term is NaN.\<close>

lemma foldl_nan_add_None: "foldl nan_add None xs = None"
  by (induction xs) simp_all

lemma py_sum_NaN: "None \<in> set xs \<Longrightarrow> py_sum xs = None"
proof -
  have "None \<in> set xs \<Longrightarrow> foldl nan_add a xs = None" for a
  proof (induction xs arbitrary: a)
    case Nil
    then show ?case by simp
  next
    case (Cons x xs)
    show ?case
    proof (cases x)
      case None
      then show ?thesis by (cases a) (simp_all add: foldl_nan_add_None)
    next
      case (Some v)
      with Cons.prems have "None \<in> set xs" by simp
      then show ?thesis using Cons.IH by simp
    qed
  qed
  then show "None \<in> set xs \<Longrightarrow> py_sum xs = None" by (simp add: py_sum_def)
qed

lemma py_sum_all_NaN: "xs \<noteq> [] \<Longrightarrow> py_sum (map (\<lambda>w. None) xs) = None"
  by (rule py_sum_NaN) (cases xs, simp_all)


lemma smooth_loop_values:
  "(\<And>v. v \<in> set vs \<Longrightarrow> body v = Inr (f v)) \<Longrightarrow> smooth_loop body vs acc = Inr (acc @ map f vs)"
  by (induction vs arbitrary: acc) simp_all

lemma smooth_loop_first_error:
  "vs \<noteq> [] \<Longrightarrow> body (hd vs) = Inl e \<Longrightarrow> smooth_loop body vs acc = Inl e"
  by (cases vs) simp_all

text \<open>
  One pass of the loop. An exception of \<open>np.arange\<close> comes first; with the standard
  deviation unbound the pass raises \<open>UnboundLocalError\<close>; with it bound and Series of equal
  length the pass returns a value, and at wind speed \<open>0\<close> without the offset of \<open>'Staffell'\<close>
  that value is \<open>0\<close>: the sum over an empty block, or the \<open>0\<close> that replaces NaN.
\<close>

lemma smooth_point_unbound:
  "smooth_point ws pv block_width arange_result m same_object None mean_gauss v
     = Inl (case arange_result of Inl e \<Rightarrow> e | Inr block \<Rightarrow> UnboundLocalError)"
  by (simp add: smooth_point_def standard_deviation_at_def split: sum.splits)

lemma smooth_point_returns:
  assumes "length pv = length ws"
  shows "\<exists>x. smooth_point ws pv block_width (Inr block) m same_object (Some nsd) mean_gauss v
              = Inr x"
  using assms
  by (simp add: smooth_point_def standard_deviation_at_def smoothed_value_def
      split: option.splits)

lemma smooth_point_zero_speed:
  assumes "length pv = length ws" "\<not> is_Staffell m same_object"
  shows "smooth_point ws pv block_width (Inr block) m same_object (Some nsd) mean_gauss 0 = Inr 0"
  using assms
  by (cases "block = []")
     (simp_all add: smooth_point_def standard_deviation_at_def smoothed_value_def
        gaussian_distribution_def py_sum_all_NaN comp_def)

text \<open>The call after the method selection and the extension loop.\<close>

lemma smooth_power_curve_extended:
  assumes "select_normalized_standard_deviation m kwargs = Inr nsd" "6 \<le> length ws"
    and "extend_wind_speeds rnd (rnd (ws ! (length ws - 5) - ws ! (length ws - 6))) ws pv
           = Some (Inr (ws', pv'))"
  shows "smooth_power_curve rnd arange_result ws pv block_width m same_object mean_gauss kwargs =
           (case smooth_loop
                   (smooth_point ws' pv' block_width arange_result m same_object nsd mean_gauss)
                   ws' [] of
              Inl e \<Rightarrow> Some (Inl e)
            | Inr vals \<Rightarrow> Some (Inr \<lparr>wind_speed = ws', power_col = vals\<rparr>))"
  using assms by (simp add: smooth_power_curve_def)

lemma extend_wind_speeds_exit:
  assumes "extend_wind_speeds rnd step ws pv \<noteq> None" "ws \<noteq> []" "length pv = length ws"
  shows "\<exists>ext. extend_wind_speeds rnd step ws pv
                 = Some (Inr (ws @ ext, pv @ replicate (length ext) 0))
           \<and> appended_from rnd step (last ws) ext \<and> 40 \<le> last (ws @ ext)"
proof -
  from assms(1) obtain y where y: "extend_wind_speeds rnd step ws pv = Some y" by auto
  have "pv \<noteq> []" using assms(2,3) by auto
  with extend_wind_speeds_result[OF y] assms(2) y show ?thesis by auto
qed

text \<open>
  With the standard deviation bound and an array from \<open>np.arange\<close>, the call returns a curve
  once the extension loop has exited.
\<close>

lemma smooth_power_curve_returns:
  assumes "6 \<le> length ws" "length pv = length ws"
    and "select_normalized_standard_deviation m kwargs = Inr (Some nsd)"
    and "extend_wind_speeds rnd (rnd (ws ! (length ws - 5) - ws ! (length ws - 6))) ws pv \<noteq> None"
  shows "\<exists>df. smooth_power_curve rnd (Inr block) ws pv block_width m same_object mean_gauss kwargs
                = Some (Inr df)
           \<and> hd (wind_speed df) = hd ws
           \<and> (hd ws = 0 \<and> \<not> is_Staffell m same_object \<longrightarrow> hd (power_col df) = 0)"
proof -
  have ne: "ws \<noteq> []" using assms(1) by auto
  from extend_wind_speeds_exit[OF assms(4) ne assms(2)] obtain ext where
    run: "extend_wind_speeds rnd (rnd (ws ! (length ws - 5) - ws ! (length ws - 6))) ws pv
            = Some (Inr (ws @ ext, pv @ replicate (length ext) 0))"
    by blast
  define ws' where "ws' = ws @ ext"
  define pv' where "pv' = pv @ replicate (length ext) 0"
  have len: "length pv' = length ws'" using assms(2) by (simp add: ws'_def pv'_def)
  have ne': "ws' \<noteq> []" and hd: "hd ws' = hd ws" using ne by (simp_all add: ws'_def)
  define body where
    "body = smooth_point ws' pv' block_width (Inr block) m same_object (Some nsd) mean_gauss"
  have "body v = Inr (projr (body v))" for v
    using smooth_point_returns [OF len, of block_width block m same_object nsd mean_gauss v]
    by (auto simp: body_def)
  then have "smooth_loop body ws' [] = Inr ([] @ map (\<lambda>v. projr (body v)) ws')"
    by (intro smooth_loop_values) simp
  then have res: "smooth_power_curve rnd (Inr block) ws pv block_width m same_object mean_gauss
      kwargs = Some (Inr \<lparr>wind_speed = ws', power_col = map (\<lambda>v. projr (body v)) ws'\<rparr>)"
    using smooth_power_curve_extended[OF assms(3,1) run[folded ws'_def pv'_def]]
    by (simp add: body_def)
  have "hd (map (\<lambda>v. projr (body v)) ws') = 0" if "hd ws = 0" "\<not> is_Staffell m same_object"
  proof -
    have "body 0 = Inr 0"
      unfolding body_def using len that(2) by (rule smooth_point_zero_speed)
    then show ?thesis using ne' hd that(1) by (simp add: hd_map)
  qed
  with res hd show ?thesis by simp
qed

text \<open>On the curve from 0 to 5 m/s the float loop exits: it appends 6, 7 and so on to 40.\<close>

lemma extend_wind_speeds_float64_example:
  "extend_wind_speeds float64 (float64 (1 - 0)) [0, 1, 2, 3, 4, 5] [0, 10, 20, 30, 40, 50] \<noteq> None"
  by (simp add: extend_wind_speeds.simps float64_numeral float64_1)



text \<open>
  Claim C10, as the code has it. For a method string other than the three known ones the
  selection raises nothing and binds nothing. For a curve with at least six samples on
  which the extension loop exits, the call then ends in the first pass of the loop over the
  wind speeds: with the exception of \<open>np.arange\<close>, if it raises one, and otherwise with
  \<open>UnboundLocalError\<close>, raised where the standard deviation is first computed.
\<close>

theorem C10_unknown_method_unbound:
  assumes "m \<notin> {''turbulence_intensity'', ''Norgaard'', ''Staffell''}"
    and "6 \<le> length ws" "length pv = length ws"
    and "extend_wind_speeds rnd (rnd (ws ! (length ws - 5) - ws ! (length ws - 6))) ws pv \<noteq> None"
  shows "select_normalized_standard_deviation m kwargs = Inr None
         \<and> smooth_power_curve rnd arange_result ws pv block_width m same_object mean_gauss kwargs
             = Some (Inl (case arange_result of
                            Inl e \<Rightarrow> e
                          | Inr wind_speeds_block \<Rightarrow> UnboundLocalError))"
proof -
  have sel: "select_normalized_standard_deviation m kwargs = Inr None"
    using assms(1) by (simp add: select_normalized_standard_deviation_def)
  have ne: "ws \<noteq> []" using assms(2) by auto
  from extend_wind_speeds_exit[OF assms(4) ne assms(3)] obtain ext where
    run: "extend_wind_speeds rnd (rnd (ws ! (length ws - 5) - ws ! (length ws - 6))) ws pv
            = Some (Inr (ws @ ext, pv @ replicate (length ext) 0))"
    by blast
  have "smooth_loop
      (smooth_point (ws @ ext) (pv @ replicate (length ext) 0) block_width arange_result m
         same_object None mean_gauss) (ws @ ext) []
      = Inl (case arange_result of Inl e \<Rightarrow> e | Inr wind_speeds_block \<Rightarrow> UnboundLocalError)"
    using ne by (intro smooth_loop_first_error) (simp_all add: smooth_point_unbound)
  with sel smooth_power_curve_extended[OF sel assms(2) run] show ?thesis by simp
qed

text \<open>The method \<open>'bogus'\<close> on the curve from 0 to 5 m/s, in floats.\<close>

theorem C10_unknown_method_unbound_witness:
  "''bogus'' \<notin> {''turbulence_intensity'', ''Norgaard'', ''Staffell''}
   \<and> extend_wind_speeds float64 (float64 (1 - 0)) [0, 1, 2, 3, 4, 5] [0, 10, 20, 30, 40, 50]
       \<noteq> None
   \<and> select_normalized_standard_deviation ''bogus'' [''turbulence_intensity'' \<mapsto> 1 / 10]
        = Inr None
   \<and> smooth_power_curve float64 (Inr (block_of 61 (1 / 2))) [0, 1, 2, 3, 4, 5]
        [0, 10, 20, 30, 40, 50] (1 / 2) ''bogus'' False 0
        [''turbulence_intensity'' \<mapsto> 1 / 10] = Some (Inl UnboundLocalError)"
  using C10_unknown_method_unbound [of "''bogus''" "[0, 1, 2, 3, 4, 5]" "[0, 10, 20, 30, 40, 50]"
      float64 "[''turbulence_intensity'' \<mapsto> 1 / 10]" "Inr (block_of 61 (1 / 2))" "1 / 2" False 0]
    extend_wind_speeds_float64_example
  by simp

text \<open>
  Claim C10 as stated fails on the curve \<open>[0, 2\<^sup>-\<^sup>6\<^sup>0, 1, 2, 3, 4]\<close>: the float sum
  \<open>4 + 2\<^sup>-\<^sup>6\<^sup>0\<close> is \<open>4\<close>, the extension loop never exits, and the unbound variable is never
  read: the call raises nothing and never returns.
\<close>

theorem C10_never_returns_counterexample:
  "smooth_power_curve float64 (Inr (block_of 61 (1 / 2))) [0, 1 / 2 ^ 60, 1, 2, 3, 4]
     [0, 10, 20, 30, 40, 50] (1 / 2) ''bogus'' False 0
     [''turbulence_intensity'' \<mapsto> 1 / 10] = None"
  using absorbed_step_never_exits
  by (simp add: smooth_power_curve_def select_normalized_standard_deviation_def)

text \<open>
  Claim C8, as the code has it. For a strictly ascending curve with at least six samples
  that starts at wind speed \<open>0\<close> and on which the extension loop exits, a call in which
  \<open>np.arange\<close> returns an array and the method binds the standard deviation
  (\<open>'turbulence_intensity'\<close> with its keyword argument, or \<open>'Staffell'\<close>) returns a curve that
  starts at wind speed \<open>0\<close>. With \<open>'turbulence_intensity'\<close> the standard deviation there is
  \<open>0\<close> times the turbulence intensity, and the power at that point is \<open>0\<close>.
\<close>

theorem C8_zero_speed:
  assumes "sorted_wrt (<) ws" "6 \<le> length ws" "length pv = length ws" "hd ws = 0"
    and "(m = ''turbulence_intensity'' \<and> kwargs ''turbulence_intensity'' \<noteq> None)
         \<or> m = ''Staffell''"
    and "extend_wind_speeds rnd (rnd (ws ! (length ws - 5) - ws ! (length ws - 6))) ws pv \<noteq> None"
    and "arange_result = Inr wind_speeds_block"
  shows "\<exists>df. smooth_power_curve rnd arange_result ws pv block_width m same_object mean_gauss kwargs
                = Some (Inr df)
           \<and> hd (wind_speed df) = 0
           \<and> (m = ''turbulence_intensity'' \<longrightarrow> hd (power_col df) = 0)"
proof -
  from assms(5) have "\<exists>nsd. select_normalized_standard_deviation m kwargs = Inr (Some nsd)"
  proof
    assume "m = ''turbulence_intensity'' \<and> kwargs ''turbulence_intensity'' \<noteq> None"
    then show ?thesis by (auto simp: select_normalized_standard_deviation_def)
  next
    assume "m = ''Staffell''"
    then have "select_normalized_standard_deviation m kwargs = Inr (Some (2 / 10))"
      by (simp add: select_normalized_standard_deviation_def)
    then show ?thesis ..
  qed
  then obtain nsd where sel: "select_normalized_standard_deviation m kwargs = Inr (Some nsd)" ..
  have "m = ''turbulence_intensity'' \<Longrightarrow> \<not> is_Staffell m same_object"
    by (simp add: is_Staffell_def)
  with smooth_power_curve_returns [OF assms(2,3) sel assms(6),
      of wind_speeds_block block_width same_object mean_gauss] assms(4,7)
  show ?thesis by auto
qed

text \<open>The curve from 0 to 5 m/s with a turbulence intensity of 0.1, in floats.\<close>

theorem C8_zero_speed_witness:
  "sorted_wrt (<) [0, 1, 2, 3, 4, 5 :: real] \<and> hd [0, 1, 2, 3, 4, 5 :: real] = 0
   \<and> extend_wind_speeds float64 (float64 (1 - 0)) [0, 1, 2, 3, 4, 5] [0, 10, 20, 30, 40, 50]
       \<noteq> None
   \<and> (\<exists>df. smooth_power_curve float64 (Inr (block_of 61 (1 / 2))) [0, 1, 2, 3, 4, 5]
             [0, 10, 20, 30, 40, 50] (1 / 2) ''turbulence_intensity'' False 0
             [''turbulence_intensity'' \<mapsto> 1 / 10] = Some (Inr df)
          \<and> hd (wind_speed df) = 0 \<and> hd (power_col df) = 0)"
  using C8_zero_speed [of "[0, 1, 2, 3, 4, 5]" "[0, 10, 20, 30, 40, 50]"
      "''turbulence_intensity''" "[''turbulence_intensity'' \<mapsto> 1 / 10]" float64
      "Inr (block_of 61 (1 / 2))" "block_of 61 (1 / 2)" "1 / 2" False 0]
    extend_wind_speeds_float64_example
  by simp

text \<open>
  Claim C8 as stated fails on the curve \<open>[0, 2\<^sup>-\<^sup>6\<^sup>0, 1, 2, 3, 4]\<close>, which is strictly
  ascending and starts at wind speed \<open>0\<close>: the float sum \<open>4 + 2\<^sup>-\<^sup>6\<^sup>0\<close> is \<open>4\<close>, the extension
  loop never exits, and no smoothed power is computed at any point: the call never
  returns.
\<close>

theorem C8_never_returns_counterexample:
  "smooth_power_curve float64 (Inr (block_of 61 (1 / 2))) [0, 1 / 2 ^ 60, 1, 2, 3, 4]
     [0, 10, 20, 30, 40, 50] (1 / 2) ''turbulence_intensity'' False 0
     [''turbulence_intensity'' \<mapsto> 1 / 10] = None"
  using absorbed_step_never_exits
  by (simp add: smooth_power_curve_def select_normalized_standard_deviation_def)

section \<open>Properties of \<open>wake_losses_to_power_curve\<close>\<close>

text \<open>
  Claim C7. With the method \<open>'constant_efficiency'\<close> and a float efficiency \<open>e\<close>, the
  returned curve has the wind speeds of the input and, sample by sample, the power of the
  input multiplied by \<open>e\<close>; so it has the length of the input.
\<close>

theorem C7_constant_efficiency:
  "length power_curve_values = length power_curve_wind_speeds \<Longrightarrow>
   wake_losses_to_power_curve power_curve_wind_speeds power_curve_values
       ''constant_efficiency'' (PyFloat e)
     = Inr \<lparr>wind_speed = power_curve_wind_speeds,
            power_col = map (\<lambda>p. p * e) power_curve_values\<rparr>"
  by (simp add: wake_losses_to_power_curve_def)

text \<open>The example of the specification: \<open>[(3,100),(4,200)]\<close> with \<open>e = 0.9\<close>.\<close>

theorem C7_constant_efficiency_witness:
  "length [100, 200 :: real] = length [3, 4 :: real] \<and>
   wake_losses_to_power_curve [3, 4] [100, 200] ''constant_efficiency'' (PyFloat (9 / 10))
     = Inr \<lparr>wind_speed = [3, 4], power_col = [90, 180]\<rparr>"
  using C7_constant_efficiency [of "[100, 200]" "[3, 4]" "9 / 10"] by simp

text \<open>
  Claim C6. A dictionary passes the type check of lines 174 to 178, and the call of its
  missing method \<open>set_index\<close> in line 180 then raises \<open>AttributeError\<close>: the documented
  dictionary input is not accepted.
\<close>

theorem C6_dict_attribute_error:
  "wake_losses_to_power_curve [3, 4, 5] [100, 200, 300] ''wind_efficiency_curve''
     (PyDict [(''wind_speed'', [3, 5]), (''efficiency'', [1 / 2, 1])]) = Inl AttributeError"
  by (simp add: wake_losses_to_power_curve_def)

subsection \<open>The method \<open>'wind_efficiency_curve'\<close>\<close>

text \<open>Rows that survive \<open>dropna\<close>.\<close>

lemma dropna_map_fst:
  "map fst (dropna (map (\<lambda>x. (x, g x)) xs)) = filter (\<lambda>x. g x \<noteq> None) xs"
proof (induction xs)
  case Nil
  then show ?case by simp
next
  case (Cons x xs)
  then show ?case by (cases "g x") simp_all
qed

lemma dropna_member:
  "(x, v) \<in> set (dropna rows) \<longleftrightarrow> (x, Some v) \<in> set rows"
  by (induction rows rule: dropna.induct) auto

text \<open>
  Where the wind speeds of the efficiency frame are among those of the power curve, the
  joined index is that of the power curve, and the defined entries of the efficiency
  column are the rows of the efficiency frame.
\<close>

lemma valid_points_map:
  "valid_points xs (map f xs) = map (\<lambda>x. (x, the (f x))) (filter (\<lambda>x. f x \<noteq> None) xs)"
proof (induction xs)
  case Nil
  then show ?case by simp
next
  case (Cons x xs)
  then show ?case by (cases "f x") simp_all
qed

lemma zip_map2_same:
  "zip xs (map2 h (map f xs) (map g xs)) = map (\<lambda>x. (x, h (f x) (g x))) xs"
  by (induction xs) simp_all

lemma filter_sorted_subset:
  fixes ws index :: "real list"
  assumes "sorted_wrt (<) ws" "sorted_wrt (<) index" "set ws \<subseteq> set index"
  shows "filter (\<lambda>x. x \<in> set ws) index = ws"
proof (rule sorted_distinct_set_unique)
  show "sorted (filter (\<lambda>x. x \<in> set ws) index)"
    using assms(2) by (simp add: strict_sorted_iff sorted_filter[where f = "\<lambda>x. x", simplified])
  show "distinct (filter (\<lambda>x. x \<in> set ws) index)"
    using assms(2) by (simp add: strict_sorted_iff)
  show "sorted ws" "distinct ws" using assms(1) by (simp_all add: strict_sorted_iff)
  show "set (filter (\<lambda>x. x \<in> set ws) index) = set ws" using assms(3) by auto
qed

lemma valid_points_index:
  fixes rows :: "(real \<times> real) list"
  assumes "sorted_wrt (<) (map fst rows)" "sorted_wrt (<) index" "set (map fst rows) \<subseteq> set index"
  shows "valid_points index (map (map_of rows) index) = rows"
proof -
  have "filter (\<lambda>x. map_of rows x \<noteq> None) index = filter (\<lambda>x. x \<in> set (map fst rows)) index"
    by (simp add: map_of_eq_None_iff)
  also have "\<dots> = map fst rows" using assms by (rule filter_sorted_subset)
  finally have "valid_points index (map (map_of rows) index)
      = map (\<lambda>r. (fst r, the (map_of rows (fst r)))) rows"
    by (simp add: valid_points_map comp_def)
  also have "\<dots> = rows"
  proof (rule map_idI)
    fix r assume "r \<in> set rows"
    moreover have "distinct (map fst rows)" using assms(1) by (simp add: strict_sorted_iff)
    ultimately have "map_of rows (fst r) = Some (snd r)" by simp
    then show "(fst r, the (map_of rows (fst r))) = r" by simp
  qed
  finally show ?thesis .
qed

text \<open>
  The positions before the first defined entry are those whose wind speed is below the
  first wind speed of the efficiency frame.
\<close>

lemma takeWhile_length_less:
  "i < length xs \<Longrightarrow> i < length (takeWhile P xs) \<longleftrightarrow> (\<forall>j \<le> i. P (xs ! j))"
proof (induction xs arbitrary: i)
  case Nil
  then show ?case by simp
next
  case (Cons x xs)
  show ?case
  proof (cases i)
    case 0
    then show ?thesis by simp
  next
    case (Suc k)
    with Cons.prems have k: "k < length xs" by simp
    have "(\<forall>j \<le> Suc k. P ((x # xs) ! j)) \<longleftrightarrow> P x \<and> (\<forall>j \<le> k. P (xs ! j))"
    proof
      assume a: "\<forall>j \<le> Suc k. P ((x # xs) ! j)"
      have "P x" using a[rule_format, of 0] by simp
      moreover have "P (xs ! j)" if "j \<le> k" for j using a[rule_format, of "Suc j"] that by simp
      ultimately show "P x \<and> (\<forall>j \<le> k. P (xs ! j))" by simp
    next
      assume a: "P x \<and> (\<forall>j \<le> k. P (xs ! j))"
      show "\<forall>j \<le> Suc k. P ((x # xs) ! j)"
      proof (intro allI impI)
        fix j assume "j \<le> Suc k"
        then show "P ((x # xs) ! j)" using a by (cases j) simp_all
      qed
    qed
    with Cons.IH[OF k] Suc show ?thesis by simp
  qed
qed

lemma leading_positions:
  fixes rows :: "(real \<times> real) list"
  assumes "sorted_wrt (<) (map fst rows)" "sorted_wrt (<) index"
    and "set (map fst rows) \<subseteq> set index" "rows \<noteq> []" "i < length index"
  shows "i < length (takeWhile (\<lambda>y. y = None) (map (map_of rows) index))
         \<longleftrightarrow> index ! i < fst (hd rows)"
proof -
  have least: "fst (hd rows) \<le> k" if "k \<in> set (map fst rows)" for k
  proof -
    from that obtain j where j: "j < length rows" "map fst rows ! j = k"
      by (auto simp: in_set_conv_nth)
    show ?thesis
    proof (cases j)
      case 0
      with j assms(4) show ?thesis by (simp add: hd_conv_nth)
    next
      case (Suc j')
      with j have "map fst rows ! 0 < map fst rows ! j"
        by (intro sorted_wrt_nth_less[OF assms(1)]) simp_all
      with j assms(4) show ?thesis by (simp add: hd_conv_nth)
    qed
  qed
  have "(\<forall>j \<le> i. map_of rows (index ! j) = None) \<longleftrightarrow> index ! i < fst (hd rows)"
  proof
    assume a: "\<forall>j \<le> i. map_of rows (index ! j) = None"
    show "index ! i < fst (hd rows)"
    proof (rule ccontr)
      assume "\<not> index ! i < fst (hd rows)"
      then have ge: "fst (hd rows) \<le> index ! i" by simp
      have "fst (hd rows) \<in> set index" using assms(3,4) by auto
      then obtain j where j: "j < length index" "index ! j = fst (hd rows)"
        by (auto simp: in_set_conv_nth)
      have "j \<le> i"
      proof (rule ccontr)
        assume "\<not> j \<le> i"
        then have "index ! i < index ! j" using j
          by (intro sorted_wrt_nth_less[OF assms(2)]) simp_all
        with ge j show False by simp
      qed
      with a j have "map_of rows (fst (hd rows)) = None" by auto
      then show False using assms(4) by (simp add: map_of_eq_None_iff)
    qed
  next
    assume a: "index ! i < fst (hd rows)"
    show "\<forall>j \<le> i. map_of rows (index ! j) = None"
    proof (intro allI impI)
      fix j assume "j \<le> i"
      have "index ! j \<le> index ! i"
      proof (cases "j = i")
        case True then show ?thesis by simp
      next
        case False
        with \<open>j \<le> i\<close> have "index ! j < index ! i" using assms(5)
          by (intro sorted_wrt_nth_less[OF assms(2)]) simp_all
        then show ?thesis by simp
      qed
      with a have "index ! j < fst (hd rows)" by simp
      with least have "index ! j \<notin> set (map fst rows)" by force
      then show "map_of rows (index ! j) = None" by (simp add: map_of_eq_None_iff)
    qed
  qed
  with assms(5) show ?thesis by (simp add: takeWhile_length_less)
qed

lemma interpolate_index_efficiency:
  assumes "sorted_wrt (<) (map fst rows)" "sorted_wrt (<) index"
    and "set (map fst rows) \<subseteq> set index" "rows \<noteq> []"
  shows "interpolate_index index (map (map_of rows) index) = map (efficiency_at rows) index"
proof (rule nth_equalityI)
  have "sorted (map fst rows)" using assms(1) by (simp add: strict_sorted_iff)
  then have "sort_key fst rows = rows" by (rule sort_key_id_if_sorted)
  then have valid: "sort_key fst (valid_points index (map (map_of rows) index)) = rows"
    using valid_points_index[OF assms(1-3)] by simp
  show "length (interpolate_index index (map (map_of rows) index))
      = length (map (efficiency_at rows) index)"
    using assms(4) by (simp add: interpolate_index_def valid Let_def)
  fix i assume "i < length (interpolate_index index (map (map_of rows) index))"
  then have i: "i < length index" using assms(4) by (simp add: interpolate_index_def valid Let_def)
  show "interpolate_index index (map (map_of rows) index) ! i = map (efficiency_at rows) index ! i"
    using i assms(4) leading_positions [OF assms i]
    by (simp add: interpolate_index_def valid Let_def efficiency_at_def split: option.splits)
qed

text \<open>
  Between two neighbouring rows of the efficiency frame \<open>np.interp\<close> is the line through
  them, with the wind speeds as abscissae; above the last row it is the last efficiency.
\<close>

lemma rows_nth_less:
  "sorted_wrt (<) (map fst rows) \<Longrightarrow> i < j \<Longrightarrow> j < length rows \<Longrightarrow> fst (rows ! i) < fst (rows ! j)"
  using sorted_wrt_nth_less[of "\<lambda>a b. fst a < fst b" rows i j] by (simp add: sorted_wrt_map)

lemma interp_segments_between:
  assumes "sorted_wrt (<) (map fst rows)" "Suc k < length rows"
    and "fst (rows ! k) < x" "x < fst (rows ! Suc k)"
  shows "interp_segments x rows =
           (snd (rows ! Suc k) - snd (rows ! k)) / (fst (rows ! Suc k) - fst (rows ! k))
             * (x - fst (rows ! k)) + snd (rows ! k)"
  using assms
proof (induction k arbitrary: rows)
  case 0
  then obtain x0 y0 x1 y1 rest where rows: "rows = (x0, y0) # (x1, y1) # rest"
    by (cases rows; cases "tl rows") auto
  with 0 show ?case by simp
next
  case (Suc k)
  then obtain x0 y0 x1 y1 rest where rows: "rows = (x0, y0) # (x1, y1) # rest"
    by (cases rows; cases "tl rows") auto
  have "fst (rows ! 1) \<le> fst (rows ! Suc k)"
  proof (cases k)
    case 0
    then show ?thesis by simp
  next
    case (Suc k')
    have "fst (rows ! 1) < fst (rows ! Suc k)"
      using Suc Suc.prems(2) by (intro rows_nth_less[OF Suc.prems(1)]) simp_all
    then show ?thesis by simp
  qed
  then have "x1 \<le> fst (rows ! Suc k)" using rows by simp
  with Suc.prems(3) have nlt: "\<not> x < x1" by simp
  have "interp_segments x ((x1, y1) # rest) =
           (snd (((x1, y1) # rest) ! Suc k) - snd (((x1, y1) # rest) ! k))
             / (fst (((x1, y1) # rest) ! Suc k) - fst (((x1, y1) # rest) ! k))
             * (x - fst (((x1, y1) # rest) ! k)) + snd (((x1, y1) # rest) ! k)"
    using Suc.prems rows by (intro Suc.IH) simp_all
  with nlt rows show ?case by simp
qed

lemma keys_bounds:
  fixes rows :: "(real \<times> real) list"
  assumes "sorted_wrt (<) (map fst rows)" "k < length rows"
  shows "fst (hd rows) \<le> fst (rows ! k)" "fst (rows ! k) \<le> fst (last rows)"
proof -
  have ne: "rows \<noteq> []" using assms(2) by auto
  show "fst (hd rows) \<le> fst (rows ! k)"
  proof (cases k)
    case 0
    with ne show ?thesis by (simp add: hd_conv_nth)
  next
    case (Suc k')
    with assms(2) have "fst (rows ! 0) < fst (rows ! k)"
      by (intro rows_nth_less[OF assms(1)]) simp_all
    with ne show ?thesis by (simp add: hd_conv_nth)
  qed
  have "fst (rows ! k) \<in> set (map fst rows)" using assms(2) by simp
  from sorted_wrt_less_last[OF assms(1) this] ne show "fst (rows ! k) \<le> fst (last rows)"
    by (simp add: last_map)
qed

lemma efficiency_at_trailing:
  assumes "sorted_wrt (<) (map fst rows)" "rows \<noteq> []" "fst (last rows) < x"
  shows "efficiency_at rows x = Some (snd (last rows))"
proof -
  have "k < x" if "k \<in> set (map fst rows)" for k
    using sorted_wrt_less_last[OF assms(1) that] assms(2,3) by (simp add: last_map)
  then have "x \<notin> set (map fst rows)" by blast
  then have none: "map_of rows x = None" by (simp add: map_of_eq_None_iff)
  have "fst (hd rows) \<le> fst (last rows)"
    using keys_bounds(2)[OF assms(1), of 0] assms(2) by (simp add: hd_conv_nth)
  with assms(2,3) none show ?thesis
    by (simp add: efficiency_at_def np_interp_def hd_map last_map)
qed

lemma efficiency_at_between:
  assumes "sorted_wrt (<) (map fst rows)" "Suc k < length rows"
    and "fst (rows ! k) < x" "x < fst (rows ! Suc k)"
  shows "efficiency_at rows x =
           Some ((snd (rows ! Suc k) - snd (rows ! k)) / (fst (rows ! Suc k) - fst (rows ! k))
                   * (x - fst (rows ! k)) + snd (rows ! k))"
proof -
  have ne: "rows \<noteq> []" using assms(2) by auto
  have "x \<noteq> fst (rows ! j)" if "j < length rows" for j
  proof (cases "j \<le> k")
    case True
    have "fst (rows ! j) \<le> fst (rows ! k)"
    proof (cases "j = k")
      case False
      with True have "fst (rows ! j) < fst (rows ! k)" using assms(2)
        by (intro rows_nth_less[OF assms(1)]) simp_all
      then show ?thesis by simp
    qed simp
    with assms(3) show ?thesis by simp
  next
    case False
    have "fst (rows ! Suc k) \<le> fst (rows ! j)"
    proof (cases "j = Suc k")
      case neq: False
      with False have "fst (rows ! Suc k) < fst (rows ! j)" using that
        by (intro rows_nth_less[OF assms(1)]) simp_all
      then show ?thesis by simp
    qed simp
    with assms(4) show ?thesis by simp
  qed
  then have "\<forall>j < length rows. x \<noteq> fst (rows ! j)" by simp
  then have "x \<notin> set (map fst rows)" by (force simp: in_set_conv_nth)
  then have none: "map_of rows x = None" by (simp add: map_of_eq_None_iff)
  have lo: "fst (hd rows) < x" using keys_bounds(1)[OF assms(1), of k] assms(2,3) by simp
  have hi: "x < fst (last rows)" using keys_bounds(2)[OF assms(1), of "Suc k"] assms(2,4) by simp
  have "zip (map fst rows) (map snd rows) = rows" by (simp add: zip_map_fst_snd)
  with none lo hi ne interp_segments_between[OF assms] show ?thesis
    by (simp add: efficiency_at_def np_interp_def hd_map last_map)
qed

lemma efficiency_at_defined:
  assumes "sorted_wrt (<) (map fst rows)" "rows \<noteq> []"
  shows "efficiency_at rows x \<noteq> None \<longleftrightarrow> fst (hd rows) \<le> x"
proof (cases "map_of rows x")
  case None
  then show ?thesis by (auto simp: efficiency_at_def)
next
  case (Some v)
  then have "(x, v) \<in> set rows" by (rule map_of_SomeD)
  then obtain k where "k < length rows" "rows ! k = (x, v)" by (auto simp: in_set_conv_nth)
  with keys_bounds(1)[OF assms(1), of k] Some show ?thesis by (simp add: efficiency_at_def)
qed

text \<open>
  The rows of the result: one for each sample of the power curve at which the interpolated
  efficiency is defined, with the power multiplied by it.
\<close>

lemma reduced_power_rows:
  assumes "sorted_wrt (<) ws" "length pv = length ws"
    and "sorted_wrt (<) (map fst rows)" "rows \<noteq> []" "set (map fst rows) \<subseteq> set ws"
  shows "reduced_power ws pv rows =
           dropna (map (\<lambda>x. (x, nan_mult (map_of (zip ws pv) x) (efficiency_at rows x))) ws)"
proof -
  have "filter (\<lambda>x. x \<notin> set ws) (map fst rows) = []"
    using assms(5) by (auto simp: filter_empty_conv)
  then have index: "ws @ filter (\<lambda>x. x \<notin> set ws) (map fst rows) = ws" by simp
  have filled: "interpolate_index ws (map (map_of rows) ws) = map (efficiency_at rows) ws"
    using assms(3,1,5,4) by (rule interpolate_index_efficiency)
  show ?thesis
    by (simp add: reduced_power_def Let_def index filled zip_map2_same)
qed

lemma reduced_power_member:
  assumes "sorted_wrt (<) ws" "length pv = length ws"
    and "sorted_wrt (<) (map fst rows)" "rows \<noteq> []" "set (map fst rows) \<subseteq> set ws"
    and "i < length ws" "efficiency_at rows (ws ! i) = Some e"
  shows "(ws ! i, pv ! i * e) \<in> set (reduced_power ws pv rows)"
proof -
  have "distinct ws" using assms(1) by (simp add: strict_sorted_iff)
  then have "map_of (zip ws pv) (ws ! i) = Some (pv ! i)"
    using assms(2,6) by (simp add: map_of_zip_nth)
  then have "nan_mult (map_of (zip ws pv) (ws ! i)) (efficiency_at rows (ws ! i)) = Some (pv ! i * e)"
    using assms(7) by simp
  moreover have "ws ! i \<in> set ws" using assms(6) by simp
  ultimately have "(ws ! i, Some (pv ! i * e))
      \<in> set (map (\<lambda>x. (x, nan_mult (map_of (zip ws pv) x) (efficiency_at rows x))) ws)"
    by (metis (mono_tags, lifting) image_eqI set_map)
  then show ?thesis
    by (simp only: reduced_power_rows[OF assms(1-5)] dropna_member)
qed

lemma reduced_power_wind_speeds:
  assumes "sorted_wrt (<) ws" "length pv = length ws"
    and "sorted_wrt (<) (map fst rows)" "rows \<noteq> []" "set (map fst rows) \<subseteq> set ws"
  shows "map fst (reduced_power ws pv rows) = filter (\<lambda>x. fst (hd rows) \<le> x) ws"
proof -
  have "distinct ws" using assms(1) by (simp add: strict_sorted_iff)
  have some: "map_of (zip ws pv) x \<noteq> None" if "x \<in> set ws" for x
    using that assms(2) by (simp add: map_of_zip_is_None)
  have "nan_mult (map_of (zip ws pv) x) (efficiency_at rows x) \<noteq> None \<longleftrightarrow> fst (hd rows) \<le> x"
    if "x \<in> set ws" for x
  proof -
    from some[OF that] obtain p where p: "map_of (zip ws pv) x = Some p" by blast
    show ?thesis
      using efficiency_at_defined[OF assms(3,4), of x] p
      by (cases "efficiency_at rows x") simp_all
  qed
  then have "filter (\<lambda>x. nan_mult (map_of (zip ws pv) x) (efficiency_at rows x) \<noteq> None) ws
      = filter (\<lambda>x. fst (hd rows) \<le> x) ws"
    by (intro filter_cong) simp_all
  then show ?thesis
    by (simp only: reduced_power_rows[OF assms] dropna_map_fst)
qed

text \<open>
  Claim C2, as the code has it. For a strictly ascending power curve and a non-empty
  efficiency frame with strictly ascending wind speeds that are among those of the power
  curve, the returned wind speeds are those of the power curve that are not below the
  first wind speed of the efficiency frame: the leading rows are dropped. The rows above
  its last wind speed are kept, with the power multiplied by the last efficiency.
\<close>

theorem C2_leading_dropped_trailing_filled:
  assumes "sorted_wrt (<) ws" "length pv = length ws"
    and "sorted_wrt (<) (map fst rows)" "rows \<noteq> []" "set (map fst rows) \<subseteq> set ws"
  shows "\<exists>df. wake_losses_to_power_curve ws pv ''wind_efficiency_curve'' (PyDataFrame rows) = Inr df
           \<and> wind_speed df = filter (\<lambda>x. fst (hd rows) \<le> x) ws
           \<and> (\<forall>i < length ws. fst (last rows) < ws ! i \<longrightarrow>
                  (ws ! i, pv ! i * snd (last rows)) \<in> set (zip (wind_speed df) (power_col df)))"
proof -
  have "(ws ! i, pv ! i * snd (last rows)) \<in> set (reduced_power ws pv rows)"
    if "i < length ws" "fst (last rows) < ws ! i" for i
    using assms that(1) efficiency_at_trailing[OF assms(3,4) that(2)]
    by (rule reduced_power_member)
  then have rows: "\<forall>i < length ws. fst (last rows) < ws ! i \<longrightarrow>
      (ws ! i, pv ! i * snd (last rows))
        \<in> set (zip (map fst (reduced_power ws pv rows)) (map snd (reduced_power ws pv rows)))"
    by (simp add: zip_map_fst_snd)
  have "wake_losses_to_power_curve ws pv ''wind_efficiency_curve'' (PyDataFrame rows)
      = Inr \<lparr>wind_speed = map fst (reduced_power ws pv rows),
             power_col = map snd (reduced_power ws pv rows)\<rparr>"
    by (simp add: wake_losses_to_power_curve_def Let_def)
  moreover have "wind_speed \<lparr>wind_speed = map fst (reduced_power ws pv rows),
             power_col = map snd (reduced_power ws pv rows)\<rparr> = filter (\<lambda>x. fst (hd rows) \<le> x) ws"
    using reduced_power_wind_speeds[OF assms] by simp
  moreover have "\<forall>i < length ws. fst (last rows) < ws ! i \<longrightarrow>
      (ws ! i, pv ! i * snd (last rows))
        \<in> set (zip (wind_speed \<lparr>wind_speed = map fst (reduced_power ws pv rows),
             power_col = map snd (reduced_power ws pv rows)\<rparr>)
           (power_col \<lparr>wind_speed = map fst (reduced_power ws pv rows),
             power_col = map snd (reduced_power ws pv rows)\<rparr>))"
    using rows by simp
  ultimately show ?thesis by blast
qed

text \<open>An efficiency frame with the single row \<open>(4, 0.5)\<close>: the row at 5 is kept, with 150.\<close>

theorem C2_leading_dropped_trailing_filled_witness:
  "\<exists>df. wake_losses_to_power_curve [3, 4, 5] [100, 200, 300] ''wind_efficiency_curve''
          (PyDataFrame [(4, 1 / 2)]) = Inr df
     \<and> wind_speed df = [4, 5]
     \<and> (5, 150) \<in> set (zip (wind_speed df) (power_col df))"
proof -
  have h: "sorted_wrt (<) [3, 4, 5 :: real]" "length [100, 200, 300 :: real] = length [3, 4, 5 :: real]"
    "sorted_wrt (<) (map fst [(4, 1 / 2 :: real) :: real \<times> real])" "[(4, 1 / 2 :: real) :: real \<times> real] \<noteq> []"
    "set (map fst [(4, 1 / 2 :: real) :: real \<times> real]) \<subseteq> set [3, 4, 5]"
    by simp_all
  from C2_leading_dropped_trailing_filled [OF h] obtain df where
    df: "wake_losses_to_power_curve [3, 4, 5] [100, 200, 300] ''wind_efficiency_curve''
          (PyDataFrame [(4, 1 / 2)]) = Inr df"
      "wind_speed df = filter (\<lambda>x. fst (hd [(4, 1 / 2 :: real) :: real \<times> real]) \<le> x) [3, 4, 5]"
      "\<forall>i < length [3, 4, 5 :: real]. fst (last [(4, 1 / 2 :: real) :: real \<times> real]) < [3, 4, 5] ! i \<longrightarrow>
          ([3, 4, 5] ! i, [100, 200, 300] ! i * snd (last [(4, 1 / 2 :: real) :: real \<times> real]))
            \<in> set (zip (wind_speed df) (power_col df))"
    by blast
  from df(3)[rule_format, of 2] have "(5, 150) \<in> set (zip (wind_speed df) (power_col df))" by simp
  with df(1,2) show ?thesis by simp
qed

text \<open>
  Claim C2 as stated fails: with the power curve \<open>[(3,100),(4,200),(5,300)]\<close> and the
  efficiency frame \<open>[(4,0.5)]\<close> the row at 3 is dropped, and the row at 5, above the last
  wind speed of the efficiency frame, is returned with the efficiency \<open>0.5\<close>.
\<close>

theorem C2_trailing_row_kept_counterexample:
  "wake_losses_to_power_curve [3, 4, 5] [100, 200, 300] ''wind_efficiency_curve''
     (PyDataFrame [(4, 1 / 2)]) = Inr \<lparr>wind_speed = [4, 5], power_col = [100, 150]\<rparr>"
  by (simp add: wake_losses_to_power_curve_def reduced_power_def interpolate_index_def
      np_interp_def)

text \<open>
  Claim C1, as the code has it. For a strictly ascending power curve and an efficiency
  frame with strictly ascending wind speeds that are among those of the power curve, a
  sample of the power curve whose wind speed lies strictly between two neighbouring rows
  \<open>(x0, e0)\<close> and \<open>(x1, e1)\<close> of the efficiency frame is returned with its power multiplied
  by \<open>(e1 - e0) / (x1 - x0) * (x - x0) + e0\<close>: the interpolation is weighted by the distance
  in wind speed.
\<close>

theorem C1_interpolation_by_wind_speed:
  assumes "sorted_wrt (<) ws" "length pv = length ws" "sorted_wrt (<) (map fst rows)"
    and "set (map fst rows) \<subseteq> set ws"
    and "i < length ws" "Suc k < length rows"
    and "fst (rows ! k) < ws ! i" "ws ! i < fst (rows ! Suc k)"
  shows "\<exists>df. wake_losses_to_power_curve ws pv ''wind_efficiency_curve'' (PyDataFrame rows) = Inr df
           \<and> (ws ! i,
                pv ! i * ((snd (rows ! Suc k) - snd (rows ! k)) / (fst (rows ! Suc k) - fst (rows ! k))
                            * (ws ! i - fst (rows ! k)) + snd (rows ! k)))
               \<in> set (zip (wind_speed df) (power_col df))"
proof -
  have ne: "rows \<noteq> []" using assms(6) by auto
  have "(ws ! i,
         pv ! i * ((snd (rows ! Suc k) - snd (rows ! k)) / (fst (rows ! Suc k) - fst (rows ! k))
                     * (ws ! i - fst (rows ! k)) + snd (rows ! k)))
        \<in> set (reduced_power ws pv rows)"
    using assms(1-3) ne assms(4,5) efficiency_at_between[OF assms(3,6-8)]
    by (rule reduced_power_member)
  then show ?thesis
    by (simp add: wake_losses_to_power_curve_def Let_def zip_map_fst_snd)
qed

text \<open>The wind speed 4 between the rows \<open>(3, 0.5)\<close> and \<open>(7, 1)\<close>: efficiency \<open>0.625\<close>.\<close>

theorem C1_interpolation_by_wind_speed_witness:
  "\<exists>df. wake_losses_to_power_curve [3, 4, 7] [100, 200, 300] ''wind_efficiency_curve''
          (PyDataFrame [(3, 1 / 2), (7, 1)]) = Inr df
     \<and> (4, 125) \<in> set (zip (wind_speed df) (power_col df))"
  using C1_interpolation_by_wind_speed [of "[3, 4, 7]" "[100, 200, 300]" "[(3, 1 / 2), (7, 1)]" 1 0]
  by simp

text \<open>
  Claim C1 as stated fails: with the wind speeds 3, 4 and 7 the code fills the gap at 4
  with \<open>0.625\<close>, so the reduced power is 125, where interpolation by rank gives \<open>0.75\<close>.
\<close>

theorem C1_rank_interpolation_counterexample:
  "wake_losses_to_power_curve [3, 4, 7] [100, 200, 300] ''wind_efficiency_curve''
     (PyDataFrame [(3, 1 / 2), (7, 1)]) = Inr \<lparr>wind_speed = [3, 4, 7], power_col = [50, 125, 300]\<rparr>
   \<and> interpolate_index [3, 4, 7] [Some (1 / 2), None, Some 1] = [Some (1 / 2), Some (5 / 8), Some 1]
   \<and> interpolate_by_rank [Some (1 / 2), None, Some 1] = [Some (1 / 2), Some (3 / 4), Some 1]"
  by (simp add: wake_losses_to_power_curve_def reduced_power_def interpolate_index_def
      interpolate_by_rank_def np_interp_def)

text \<open>
  Efficiency frames with wind speeds that the power curve does not have: the joined index
  is not ascending, the efficiency at every sample of the power curve stays NaN, and the
  returned frame is empty.
\<close>

lemma foreign_wind_speeds_empty:
  "wake_losses_to_power_curve [3, 4, 5] [100, 200, 300] ''wind_efficiency_curve''
     (PyDataFrame [(1, 1 / 5), (9, 1)]) = Inr \<lparr>wind_speed = [], power_col = []\<rparr>"
  "wake_losses_to_power_curve [3, 4, 5] [100, 200, 300] ''wind_efficiency_curve''
     (PyDataFrame [(7 / 2, 1 / 2), (9 / 2, 1)]) = Inr \<lparr>wind_speed = [], power_col = []\<rparr>"
  by (simp_all add: wake_losses_to_power_curve_def reduced_power_def interpolate_index_def)

end
